theory Spec2Isabelle
  imports Main
begin

section \<open>Data model of the snapshot and of the emitted problem\<close>

text \<open>
  The program reads one snapshot of the grid-driving environment (\<open>self.state\<close>,
  \<open>self.width\<close>, \<open>self.num_lanes\<close>) and concatenates PDDL facts into a string.
  Python integers are unbounded, so every coordinate, speed and instant is an \<open>int\<close>.

  A grid cell object is named \<open>pt{x}pt{y}\<close> in the source.  The name is a rendering of
  the pair of integers (the decimal digits never contain \<open>p\<close> or \<open>t\<close>, and line 241 of
  the source parses the pair back with \<open>split('pt')\<close>), so the encoder is modelled over
  the pair itself.  The plan translator further down works on the text of the plan file
  and is modelled over strings.
\<close>

type_synonym cell = "int \<times> int"

record car =
  car_id :: int
  pos_x :: int
  pos_y :: int
  speed_range :: "int \<times> int"

record snapshot =
  width :: int
  num_lanes :: int
  agent :: car
  cars :: "car list"
  finish_x :: int
  finish_y :: int

datatype obj = Agent1 | CarObj int

text \<open>One constructor for each f-string fragment appended to \<open>initString\<close>.\<close>

datatype fact =
    At cell int obj
  | Blocked cell int
  | NotBlocked cell int
  | UpNext cell cell int
  | DownNext cell cell int
  | ForwardNext cell cell int int
  | NextInstant int int

datatype goal = Or "fact list"

datatype error = ZeroDivisionError | ValueError | IndexError | UnboundLocalError

text \<open>Python's \<open>range(a, b)\<close> over integers: empty when \<open>b \<le> a\<close>.\<close>

definition py_range :: "int \<Rightarrow> int \<Rightarrow> int list" where
  "py_range a b = [a..b - 1]"

text \<open>\<open>generateGridCells\<close>: the outer loop runs over the columns, the inner over the lanes.\<close>

definition generateGridCells :: "int \<Rightarrow> int \<Rightarrow> cell list" where
  "generateGridCells w n =
     concat (map (\<lambda>x. map (\<lambda>lane. (x, lane)) (py_range 0 n)) (py_range 0 w))"

definition car_pos :: "car \<Rightarrow> cell" where
  "car_pos c = (pos_x c, pos_y c)"

section \<open>The occupancy part of generateInitString (lines 198 to 238)\<close>

text \<open>
  \<open>max_time = self.width // abs(max(self.state.agent.speed_range)) + 1\<close>.
  Floor division by zero raises; \<open>div\<close> on \<open>int\<close> is floor division as in Python.
\<close>

definition max_time :: "snapshot \<Rightarrow> error + int" where
  "max_time s =
     (let m = \<bar>max (fst (speed_range (agent s))) (snd (speed_range (agent s)))\<bar>
      in if m = 0 then Inl ZeroDivisionError else Inr (width s div m + 1))"

text \<open>
  The projected column of a car (lines 210 and 212, the same expression at \<open>t - 1\<close> and
  at \<open>t\<close>).  \<open>mod\<close> on \<open>int\<close> takes the sign of the divisor, as Python's \<open>%\<close> does; the
  expression is evaluated only inside the loop over \<open>range(1, max_time)\<close>, where the
  width is positive (lemma \<open>loop_width_pos\<close>), so its division by zero is unreachable.
\<close>

definition project_x :: "int \<Rightarrow> int \<Rightarrow> int \<Rightarrow> int \<Rightarrow> int" where
  "project_x w x speed t =
     (if x - speed * t \<ge> 0 then x - speed * t
      else (x - ((speed * t) mod w) + w) mod w)"

definition car_speed :: "car \<Rightarrow> int" where
  "car_speed c = \<bar>fst (speed_range c)\<bar>"

text \<open>
  The accumulator of the function: the facts appended so far and \<open>free_cells\<close>, one list
  of cells for each instant in \<open>range(max_time)\<close>.
\<close>

record enc =
  initString :: "fact list"
  free_cells :: "cell list list"

text \<open>Lines 201 to 205.  \<open>list.remove\<close> raises \<open>ValueError\<close> on an absent element, and
  \<open>free_cells[0]\<close> raises \<open>IndexError\<close> on an empty outer list.\<close>

fun block_initial :: "car list \<Rightarrow> enc \<Rightarrow> error + enc" where
  "block_initial [] e = Inr e"
| "block_initial (c # cs) e =
     (if pos_x c \<noteq> 0 \<or> pos_y c \<noteq> 0 then
        (if free_cells e = [] then Inl IndexError
         else if car_pos c \<notin> set (free_cells e ! 0) then Inl ValueError
         else block_initial cs
           \<lparr>initString = initString e @ [At (car_pos c) 0 (CarObj (car_id c)), Blocked (car_pos c) 0],
            free_cells = (free_cells e)[0 := remove1 (car_pos c) (free_cells e ! 0)]\<rparr>)
      else block_initial cs e)"

text \<open>The guarded emission that occurs three times in lines 215 to 230:
  \<open>if cell in free_cells[t]: initString += ...; free_cells[t].remove(cell)\<close>.\<close>

definition claim_cell :: "int \<Rightarrow> fact list \<Rightarrow> cell \<Rightarrow> enc \<Rightarrow> enc" where
  "claim_cell t fs c e =
     (if c \<in> set (free_cells e ! nat t)
      then \<lparr>initString = initString e @ fs,
            free_cells = (free_cells e)[nat t := remove1 c (free_cells e ! nat t)]\<rparr>
      else e)"

definition sweep :: "int \<Rightarrow> int \<Rightarrow> int list \<Rightarrow> enc \<Rightarrow> enc" where
  "sweep t y xs e = fold (\<lambda>x_co. claim_cell t [Blocked (x_co, y) t] (x_co, y)) xs e"

text \<open>Lines 209 to 230: the body of the loop over the cars at instant \<open>t\<close>.\<close>

definition car_step :: "int \<Rightarrow> int \<Rightarrow> car \<Rightarrow> enc \<Rightarrow> enc" where
  "car_step w t c e =
     (let speed = car_speed c;
          prev_x = project_x w (pos_x c) speed (t - 1);
          new_x = project_x w (pos_x c) speed t;
          new_y = pos_y c;
          e1 = claim_cell t [At (new_x, new_y) t (CarObj (car_id c)), Blocked (new_x, new_y) t]
                 (new_x, new_y) e
      in if new_x < prev_x \<and> speed > 1 then sweep t new_y (py_range (new_x + 1) prev_x) e1
         else if new_x > prev_x then sweep t new_y (py_range 0 prev_x @ py_range (new_x + 1) w) e1
         else e1)"

text \<open>Lines 207 to 234: one instant, all cars, then the explicit negative facts.\<close>

definition instant_step :: "int \<Rightarrow> car list \<Rightarrow> int \<Rightarrow> enc \<Rightarrow> enc" where
  "instant_step w cs t e =
     (let e' = fold (car_step w t) cs e
      in e'\<lparr>initString := initString e' @ map (\<lambda>c. NotBlocked c t) (free_cells e' ! nat t)\<rparr>)"

text \<open>Line 238, which reads the loop variable \<open>t\<close> after its loop: it holds the last
  instant \<open>max_time - 1\<close>, and is unbound when the loop body never ran.\<close>

definition readd_origin :: "int \<Rightarrow> enc \<Rightarrow> error + enc" where
  "readd_origin mt e =
     (if mt \<le> 1 then Inl UnboundLocalError
      else let t = mt - 1 in
        if (0, 0) \<notin> set (free_cells e ! nat t)
        then Inr (e\<lparr>free_cells := (free_cells e)[nat t := free_cells e ! nat t @ [(0, 0)]]\<rparr>)
        else Inr e)"

definition occupancy :: "snapshot \<Rightarrow> error + enc" where
  "occupancy s =
     (case max_time s of
        Inl er \<Rightarrow> Inl er
      | Inr mt \<Rightarrow>
          (case block_initial (cars s)
                  \<lparr>initString = [],
                   free_cells = replicate (nat mt) (generateGridCells (width s) (num_lanes s))\<rparr> of
             Inl er \<Rightarrow> Inl er
           | Inr e0 \<Rightarrow>
               (let e1 = fold (instant_step (width s) (cars s)) (py_range 1 mt) e0;
                    e2 = e1\<lparr>initString := initString e1 @ [At (car_pos (agent s)) 0 Agent1]\<rparr>
                in readd_origin mt e2)))"

section \<open>The transition facts and the whole of generateInitString (lines 239 to 259)\<close>

text \<open>Lines 241 to 254: the facts of one cell at one instant.  \<open>fr\<close> is \<open>free_cells[t]\<close>.\<close>

definition cell_transitions :: "int \<Rightarrow> cell list \<Rightarrow> int \<Rightarrow> cell \<Rightarrow> fact list" where
  "cell_transitions n fr t c =
     (let cur_x = fst c; cur_y = snd c;
          new_x = (if cur_x = 0 then cur_x else max 0 (cur_x - 1));
          up_y = (if cur_y = 0 then cur_y else cur_y - 1);
          new_up_y = (if (new_x, up_y) \<in> set fr then up_y else cur_y);
          down_y = (if cur_y = n - 1 then cur_y else cur_y + 1);
          new_down_y = (if (new_x, down_y) \<in> set fr then down_y else cur_y)
      in [UpNext c (new_x, new_up_y) t, DownNext c (new_x, new_down_y) t]
         @ map (\<lambda>sp. ForwardNext c ((if cur_x = 0 then cur_x else max 0 (cur_x - sp)), cur_y) t (- sp))
             (py_range 1 4))"

definition instant_transitions :: "snapshot \<Rightarrow> cell list list \<Rightarrow> int \<Rightarrow> fact list" where
  "instant_transitions s fc t =
     concat (map (cell_transitions (num_lanes s) (fc ! nat t) t)
               (generateGridCells (width s) (num_lanes s)))"

definition generateInitString :: "snapshot \<Rightarrow> error + fact list" where
  "generateInitString s =
     (case max_time s of
        Inl er \<Rightarrow> Inl er
      | Inr mt \<Rightarrow>
          (case occupancy s of
             Inl er \<Rightarrow> Inl er
           | Inr e \<Rightarrow>
               Inr (initString e
                    @ concat (map (instant_transitions s (free_cells e)) (py_range 1 mt))
                    @ map (\<lambda>i. NextInstant i (i + 1)) (py_range 0 mt))))"

section \<open>The goal and the declared objects\<close>

text \<open>\<open>generateGoalString\<close>, lines 277 to 281: one disjunct for each \<open>i\<close> in
  \<open>range(self.width)\<close>.\<close>

definition generateGoalString :: "snapshot \<Rightarrow> goal" where
  "generateGoalString s =
     Or (map (\<lambda>i. At (finish_x s, finish_y s) i Agent1) (py_range 0 (width s)))"

text \<open>A PDDL state is a set of ground facts; a disjunction holds in it when one of its
  disjuncts does.\<close>

fun goal_holds :: "fact set \<Rightarrow> goal \<Rightarrow> bool" where
  "goal_holds st (Or fs) = (\<exists>f \<in> set fs. f \<in> st)"

text \<open>Line 376 of \<open>generateProblemPDDLFile\<close>: the objects of type \<open>time\<close> are
  \<open>str(x)\<close> for \<open>x\<close> in \<open>range(gen.width)\<close>.\<close>

definition time_objects :: "snapshot \<Rightarrow> int list" where
  "time_objects s = py_range 0 (width s)"

text \<open>The arguments of type \<open>time\<close> of each predicate, as declared in
  \<open>generateDomainPDDLFile\<close> (lines 328 to 333).\<close>

fun fact_instants :: "fact \<Rightarrow> int list" where
  "fact_instants (At c t ob) = [t]"
| "fact_instants (Blocked c t) = [t]"
| "fact_instants (NotBlocked c t) = [t]"
| "fact_instants (UpNext c d t) = [t]"
| "fact_instants (DownNext c d t) = [t]"
| "fact_instants (ForwardNext c d t sp) = [t]"
| "fact_instants (NextInstant t1 t2) = [t1, t2]"

section \<open>Python primitives used by the plan translator\<close>

text \<open>The plan file is read as text; it is taken to be ASCII, so a character is a byte.
  These are the ASCII characters for which \<open>str.isspace\<close> holds.\<close>

definition is_space :: "char \<Rightarrow> bool" where
  "is_space c = (c \<in> set [CHR 0x09, CHR 0x0A, CHR 0x0B, CHR 0x0C, CHR 0x0D,
                          CHR 0x1C, CHR 0x1D, CHR 0x1E, CHR 0x1F, CHR 0x20])"

text \<open>\<open>str.split()\<close> with no argument: maximal runs of non-space characters.  The first
  argument is the token being read.\<close>

fun split_ws :: "string \<Rightarrow> string \<Rightarrow> string list" where
  "split_ws cur [] = (if cur = [] then [] else [cur])"
| "split_ws cur (c # cs) =
     (if is_space c then (if cur = [] then split_ws [] cs else cur # split_ws [] cs)
      else split_ws (cur @ [c]) cs)"

definition py_split :: "string \<Rightarrow> string list" where
  "py_split line = split_ws [] line"

text \<open>\<open>str.split('pt')\<close>: the pieces between the occurrences of the separator, found
  from the left and not overlapping.\<close>

fun split_sep_pt :: "string \<Rightarrow> string \<Rightarrow> string list" where
  "split_sep_pt cur [] = [cur]"
| "split_sep_pt cur [c] = [cur @ [c]]"
| "split_sep_pt cur (c # d # cs) =
     (if c = CHR ''p'' \<and> d = CHR ''t'' then cur # split_sep_pt [] cs
      else split_sep_pt (cur @ [c]) (d # cs))"

definition py_split_pt :: "string \<Rightarrow> string list" where
  "py_split_pt points = split_sep_pt [] points"

text \<open>Indexing a list: a negative index counts from the end, and an index out of range
  raises \<open>IndexError\<close>.\<close>

definition py_index :: "'a list \<Rightarrow> int \<Rightarrow> error + 'a" where
  "py_index xs i =
     (if 0 \<le> i \<and> i < int (length xs) then Inr (xs ! nat i)
      else if i < 0 \<and> - int (length xs) \<le> i then Inr (xs ! nat (int (length xs) + i))
      else Inl IndexError)"

text \<open>\<open>int(text)\<close> on a text without white space: an optional sign, then decimal
  digits, where single underscores may stand between digits; anything else raises
  \<open>ValueError\<close>.\<close>

definition is_digit :: "char \<Rightarrow> bool" where
  "is_digit c = (c \<in> set ''0123456789'')"

definition digit_val :: "char \<Rightarrow> int" where
  "digit_val c = int (of_char c) - 48"

fun parse_digits :: "int \<Rightarrow> bool \<Rightarrow> string \<Rightarrow> int option" where
  "parse_digits acc after_digit [] = (if after_digit then Some acc else None)"
| "parse_digits acc after_digit (c # cs) =
     (if is_digit c then parse_digits (acc * 10 + digit_val c) True cs
      else if c = CHR ''_'' \<and> after_digit then parse_digits acc False cs
      else None)"

definition py_int :: "string \<Rightarrow> error + int" where
  "py_int txt =
     (case (case txt of
              c # cs \<Rightarrow> if c = CHR ''-'' then map_option uminus (parse_digits 0 False cs)
                        else if c = CHR ''+'' then parse_digits 0 False cs
                        else parse_digits 0 False txt
            | [] \<Rightarrow> None) of
        None \<Rightarrow> Inl ValueError
      | Some v \<Rightarrow> Inr v)"

text \<open>\<open>str(n)\<close> and the f-string rendering of an integer, and the name of a cell
  \<open>f"pt{x}pt{y}"\<close> (lines 170, 204, 217).\<close>

fun nat_digits :: "nat \<Rightarrow> string" where
  "nat_digits n =
     (if n < 10 then [''0123456789'' ! n]
      else nat_digits (n div 10) @ [''0123456789'' ! (n mod 10)])"

declare nat_digits.simps [simp del]

definition py_str :: "int \<Rightarrow> string" where
  "py_str i = (if i < 0 then CHR ''-'' # nat_digits (nat (- i)) else nat_digits (nat i))"

definition cell_name :: "cell \<Rightarrow> string" where
  "cell_name c = ''pt'' @ py_str (fst c) @ ''pt'' @ py_str (snd c)"

section \<open>The two consumers of the plan file\<close>

text \<open>The list comprehension of lines 409 and 434:
  \<open>[points.split('pt')[2] for points in line.split()[1:3]]\<close>, here over the slice.\<close>

fun coords_of :: "string list \<Rightarrow> error + string list" where
  "coords_of [] = Inr []"
| "coords_of (points # rest) =
     (case py_index (py_split_pt points) 2 of
        Inl er \<Rightarrow> Inl er
      | Inr co \<Rightarrow> (case coords_of rest of Inl er \<Rightarrow> Inl er | Inr cs \<Rightarrow> Inr (co # cs)))"

text \<open>\<open>int(line.split()[-1][:-1])\<close>, lines 421 and 446.\<close>

definition forward_speed :: "string \<Rightarrow> error + int" where
  "forward_speed line =
     (case py_split line of [] \<Rightarrow> Inl IndexError | tok # toks \<Rightarrow> py_int (butlast (last (tok # toks))))"

text \<open>\<open>generatePlan\<close>, lines 431 to 447.  \<open>actions\<close> is \<open>env.actions\<close>, a list owned by
  the environment; \<open>append_action\<close> is \<open>action_sequence.append(env.actions[i])\<close>.\<close>

definition append_action :: "'a list \<Rightarrow> int \<Rightarrow> 'a list \<Rightarrow> error + 'a list" where
  "append_action actions i action_sequence =
     (case py_index actions i of
        Inl er \<Rightarrow> Inl er
      | Inr a \<Rightarrow> Inr (action_sequence @ [a]))"

definition plan_line :: "'a list \<Rightarrow> string \<Rightarrow> 'a list \<Rightarrow> error + 'a list" where
  "plan_line actions line action_sequence =
     (case line of
        [] \<Rightarrow> Inl IndexError
      | ch # _ \<Rightarrow>
          if ch = CHR ''('' then
            (case py_split line of
               [] \<Rightarrow> Inl IndexError
             | tok # toks \<Rightarrow>
                 (let action = drop 1 tok in
                  case coords_of (take 2 toks) of
                    Inl er \<Rightarrow> Inl er
                  | Inr coords \<Rightarrow>
                      (case (if action = ''up'' then
                               (if length (remdups coords) = 1
                                then append_action actions (- 1) action_sequence
                                else append_action actions 0 action_sequence)
                             else Inr action_sequence) of
                         Inl er \<Rightarrow> Inl er
                       | Inr seq1 \<Rightarrow>
                           (case (if action = ''down'' then
                                    (if length (remdups coords) = 1
                                     then append_action actions (- 1) seq1
                                     else append_action actions 1 seq1)
                                  else Inr seq1) of
                              Inl er \<Rightarrow> Inl er
                            | Inr seq2 \<Rightarrow>
                                (if action = ''forward'' then
                                   (case forward_speed line of
                                      Inl er \<Rightarrow> Inl er
                                    | Inr speed \<Rightarrow> append_action actions speed seq2)
                                 else Inr seq2)))))
          else Inr action_sequence)"

fun plan_lines :: "'a list \<Rightarrow> string list \<Rightarrow> 'a list \<Rightarrow> error + 'a list" where
  "plan_lines actions [] action_sequence = Inr action_sequence"
| "plan_lines actions (line # rest) action_sequence =
     (case plan_line actions line action_sequence of
        Inl er \<Rightarrow> Inl er
      | Inr seq' \<Rightarrow> plan_lines actions rest seq')"

definition generatePlan :: "'a list \<Rightarrow> string list \<Rightarrow> error + 'a list" where
  "generatePlan actions plan_file = plan_lines actions plan_file []"

text \<open>
  \<open>simulateSolution\<close>, lines 405 to 423.  The environment is a value of some type
  \<open>'e\<close> with its transition \<open>env_step\<close>; rendering and printing leave it unchanged.  The
  state carries the environment and the actions handed to \<open>env.step\<close> so far, in order.
  An exception leaves the environment as the calls before it made it, so the result
  keeps the state beside the error.
\<close>

record ('e, 'a) sim =
  env :: 'e
  stepped :: "'a list"

definition step_action ::
  "('a \<Rightarrow> 'e \<Rightarrow> 'e) \<Rightarrow> 'a list \<Rightarrow> int \<Rightarrow> ('e, 'a) sim \<Rightarrow> error option \<times> ('e, 'a) sim" where
  "step_action env_step actions i st =
     (case py_index actions i of
        Inl er \<Rightarrow> (Some er, st)
      | Inr a \<Rightarrow> (None, \<lparr>env = env_step a (env st), stepped = stepped st @ [a]\<rparr>))"

definition simulate_line ::
  "('a \<Rightarrow> 'e \<Rightarrow> 'e) \<Rightarrow> 'a list \<Rightarrow> string \<Rightarrow> ('e, 'a) sim \<Rightarrow> error option \<times> ('e, 'a) sim" where
  "simulate_line env_step actions line st =
     (case line of
        [] \<Rightarrow> (Some IndexError, st)
      | ch # _ \<Rightarrow>
          if ch = CHR ''('' then
            (case py_split line of
               [] \<Rightarrow> (Some IndexError, st)
             | tok # toks \<Rightarrow>
                 (let action = drop 1 tok in
                  case coords_of (take 2 toks) of
                    Inl er \<Rightarrow> (Some er, st)
                  | Inr coords \<Rightarrow>
                      (case (if action = ''up'' then
                               (if length (remdups coords) = 1
                                then step_action env_step actions (- 1) st
                                else step_action env_step actions 0 st)
                             else (None, st)) of
                         (Some er, st1) \<Rightarrow> (Some er, st1)
                       | (None, st1) \<Rightarrow>
                           (case (if action = ''down'' then
                                    (if length (remdups coords) = 1
                                     then step_action env_step actions (- 1) st1
                                     else step_action env_step actions 1 st1)
                                  else (None, st1)) of
                              (Some er, st2) \<Rightarrow> (Some er, st2)
                            | (None, st2) \<Rightarrow>
                                (if action = ''forward'' then
                                   (case forward_speed line of
                                      Inl er \<Rightarrow> (Some er, st2)
                                    | Inr speed \<Rightarrow> step_action env_step actions speed st2)
                                 else (None, st2))))))
          else (None, st))"

fun simulate_lines ::
  "('a \<Rightarrow> 'e \<Rightarrow> 'e) \<Rightarrow> 'a list \<Rightarrow> string list \<Rightarrow> ('e, 'a) sim \<Rightarrow> error option \<times> ('e, 'a) sim" where
  "simulate_lines env_step actions [] st = (None, st)"
| "simulate_lines env_step actions (line # rest) st =
     (case simulate_line env_step actions line st of
        (Some er, st') \<Rightarrow> (Some er, st')
      | (None, st') \<Rightarrow> simulate_lines env_step actions rest st')"

definition simulateSolution ::
  "('a \<Rightarrow> 'e \<Rightarrow> 'e) \<Rightarrow> 'a list \<Rightarrow> 'e \<Rightarrow> string list \<Rightarrow> error option \<times> ('e, 'a) sim" where
  "simulateSolution env_step actions env0 plan_file =
     simulate_lines env_step actions plan_file \<lparr>env = env0, stepped = []\<rparr>"

section \<open>Notions used in the statements\<close>

text \<open>The cells for which a fact list holds a \<open>blocked\<close> fact at instant \<open>t\<close>.\<close>

definition blocked_cells :: "fact list \<Rightarrow> int \<Rightarrow> cell list" where
  "blocked_cells fs t =
     concat (map (\<lambda>f. case f of Blocked c u \<Rightarrow> (if u = t then [c] else []) | _ \<Rightarrow> []) fs)"

text \<open>The invariant of the loops of lines 201 to 234 over the grid \<open>G\<close>: at every instant
  \<open>free_cells[t]\<close> has no duplicates, lies within the grid, and the cells with a
  \<open>blocked\<close> fact at \<open>t\<close> are exactly the grid cells missing from it.\<close>

definition occ_inv :: "cell list \<Rightarrow> int \<Rightarrow> enc \<Rightarrow> bool" where
  "occ_inv G mt e \<longleftrightarrow>
     length (free_cells e) = nat mt \<and>
     (\<forall>t. 0 \<le> t \<and> t < mt \<longrightarrow>
        distinct (free_cells e ! nat t) \<and> set (free_cells e ! nat t) \<subseteq> set G \<and>
        {c. Blocked c t \<in> set (initString e)} = set G - set (free_cells e ! nat t))"

text \<open>A grid of width 2 with one lane, one car of speed 1 on the origin cell, and the
  agent speed range \<open>(-3, -1)\<close> of the repository's test configuration; then what the
  encoder computes for it.\<close>

definition origin_car_snapshot :: snapshot where
  "origin_car_snapshot =
     \<lparr>width = 2, num_lanes = 1,
      agent = \<lparr>car_id = 0, pos_x = 1, pos_y = 0, speed_range = (- 3, - 1)\<rparr>,
      cars = [\<lparr>car_id = 1, pos_x = 0, pos_y = 0, speed_range = (- 1, - 1)\<rparr>],
      finish_x = 0, finish_y = 0\<rparr>"

definition origin_car_enc :: enc where
  "origin_car_enc =
     \<lparr>initString =
        [At (1, 0) 1 (CarObj 1), Blocked (1, 0) 1, NotBlocked (0, 0) 1,
         At (0, 0) 2 (CarObj 1), Blocked (0, 0) 2, NotBlocked (1, 0) 2,
         At (1, 0) 0 Agent1],
      free_cells = [[(0, 0), (1, 0)], [(0, 0)], [(1, 0), (0, 0)]]\<rparr>"

definition origin_car_facts :: "fact list" where
  "origin_car_facts =
     [At (1, 0) 1 (CarObj 1), Blocked (1, 0) 1, NotBlocked (0, 0) 1,
      At (0, 0) 2 (CarObj 1), Blocked (0, 0) 2, NotBlocked (1, 0) 2,
      At (1, 0) 0 Agent1, UpNext (0, 0) (0, 0) 1, DownNext (0, 0) (0, 0) 1,
      ForwardNext (0, 0) (0, 0) 1 (- 1), ForwardNext (0, 0) (0, 0) 1 (- 2),
      ForwardNext (0, 0) (0, 0) 1 (- 3), UpNext (1, 0) (0, 0) 1,
      DownNext (1, 0) (0, 0) 1, ForwardNext (1, 0) (0, 0) 1 (- 1),
      ForwardNext (1, 0) (0, 0) 1 (- 2), ForwardNext (1, 0) (0, 0) 1 (- 3),
      UpNext (0, 0) (0, 0) 2, DownNext (0, 0) (0, 0) 2,
      ForwardNext (0, 0) (0, 0) 2 (- 1), ForwardNext (0, 0) (0, 0) 2 (- 2),
      ForwardNext (0, 0) (0, 0) 2 (- 3), UpNext (1, 0) (0, 0) 2,
      DownNext (1, 0) (0, 0) 2, ForwardNext (1, 0) (0, 0) 2 (- 1),
      ForwardNext (1, 0) (0, 0) 2 (- 2), ForwardNext (1, 0) (0, 0) 2 (- 3),
      NextInstant 0 1, NextInstant 1 2, NextInstant 2 3]"

text \<open>The facts that the loops over the cars emit: \<open>at\<close> facts of cars, \<open>blocked\<close> facts and
  negated \<open>blocked\<close> facts.\<close>

fun occ_fact :: "fact \<Rightarrow> bool" where
  "occ_fact (At c t (CarObj i)) = True"
| "occ_fact (Blocked c t) = True"
| "occ_fact (NotBlocked c t) = True"
| "occ_fact f = False"

text \<open>Width 2 and one lane, with one car on the origin cell and one car beside it.\<close>

definition two_car_snapshot :: snapshot where
  "two_car_snapshot =
     \<lparr>width = 2, num_lanes = 1,
      agent = \<lparr>car_id = 0, pos_x = 1, pos_y = 0, speed_range = (- 3, - 1)\<rparr>,
      cars = [\<lparr>car_id = 1, pos_x = 0, pos_y = 0, speed_range = (- 1, - 1)\<rparr>,
              \<lparr>car_id = 2, pos_x = 1, pos_y = 0, speed_range = (- 1, - 1)\<rparr>],
      finish_x = 0, finish_y = 0\<rparr>"

text \<open>Width 5 and one lane, with a car of speed 3 at column 4, which is at column 1 one
  instant later, and the facts the encoder emits for it.\<close>

definition sweep_snapshot :: snapshot where
  "sweep_snapshot =
     \<lparr>width = 5, num_lanes = 1,
      agent = \<lparr>car_id = 0, pos_x = 4, pos_y = 0, speed_range = (- 3, - 3)\<rparr>,
      cars = [\<lparr>car_id = 1, pos_x = 4, pos_y = 0, speed_range = (- 3, - 3)\<rparr>],
      finish_x = 0, finish_y = 0\<rparr>"

definition sweep_facts :: "fact list" where
  "sweep_facts =
     [At (4, 0) 0 (CarObj 1), Blocked (4, 0) 0, At (1, 0) 1 (CarObj 1),
      Blocked (1, 0) 1, Blocked (2, 0) 1, Blocked (3, 0) 1,
      NotBlocked (0, 0) 1, NotBlocked (4, 0) 1, At (4, 0) 0 Agent1,
      UpNext (0, 0) (0, 0) 1, DownNext (0, 0) (0, 0) 1,
      ForwardNext (0, 0) (0, 0) 1 (- 1), ForwardNext (0, 0) (0, 0) 1 (- 2),
      ForwardNext (0, 0) (0, 0) 1 (- 3), UpNext (1, 0) (0, 0) 1,
      DownNext (1, 0) (0, 0) 1, ForwardNext (1, 0) (0, 0) 1 (- 1),
      ForwardNext (1, 0) (0, 0) 1 (- 2), ForwardNext (1, 0) (0, 0) 1 (- 3),
      UpNext (2, 0) (1, 0) 1, DownNext (2, 0) (1, 0) 1,
      ForwardNext (2, 0) (1, 0) 1 (- 1), ForwardNext (2, 0) (0, 0) 1 (- 2),
      ForwardNext (2, 0) (0, 0) 1 (- 3), UpNext (3, 0) (2, 0) 1,
      DownNext (3, 0) (2, 0) 1, ForwardNext (3, 0) (2, 0) 1 (- 1),
      ForwardNext (3, 0) (1, 0) 1 (- 2), ForwardNext (3, 0) (0, 0) 1 (- 3),
      UpNext (4, 0) (3, 0) 1, DownNext (4, 0) (3, 0) 1,
      ForwardNext (4, 0) (3, 0) 1 (- 1), ForwardNext (4, 0) (2, 0) 1 (- 2),
      ForwardNext (4, 0) (1, 0) 1 (- 3), NextInstant 0 1, NextInstant 1 2]"

text \<open>Width 3 and two lanes, with a car in lane 0 that stands below the lateral-up
  candidate of the cell \<open>(2, 1)\<close> at instant 1; then what the encoder computes for it.\<close>

definition lane_snapshot :: snapshot where
  "lane_snapshot =
     \<lparr>width = 3, num_lanes = 2,
      agent = \<lparr>car_id = 0, pos_x = 2, pos_y = 1, speed_range = (- 3, - 3)\<rparr>,
      cars = [\<lparr>car_id = 1, pos_x = 2, pos_y = 0, speed_range = (- 1, - 1)\<rparr>],
      finish_x = 0, finish_y = 0\<rparr>"

definition lane_enc :: enc where
  "lane_enc =
     \<lparr>initString =
        [At (2, 0) 0 (CarObj 1), Blocked (2, 0) 0, At (1, 0) 1 (CarObj 1),
         Blocked (1, 0) 1, NotBlocked (0, 0) 1, NotBlocked (0, 1) 1,
         NotBlocked (1, 1) 1, NotBlocked (2, 0) 1, NotBlocked (2, 1) 1,
         At (2, 1) 0 Agent1],
      free_cells =
        [[(0, 0), (0, 1), (1, 0), (1, 1), (2, 1)],
         [(0, 0), (0, 1), (1, 1), (2, 0), (2, 1)]]\<rparr>"

definition lane_facts :: "fact list" where
  "lane_facts =
     [At (2, 0) 0 (CarObj 1), Blocked (2, 0) 0, At (1, 0) 1 (CarObj 1),
      Blocked (1, 0) 1, NotBlocked (0, 0) 1, NotBlocked (0, 1) 1,
      NotBlocked (1, 1) 1, NotBlocked (2, 0) 1, NotBlocked (2, 1) 1,
      At (2, 1) 0 Agent1, UpNext (0, 0) (0, 0) 1, DownNext (0, 0) (0, 1) 1,
      ForwardNext (0, 0) (0, 0) 1 (- 1), ForwardNext (0, 0) (0, 0) 1 (- 2),
      ForwardNext (0, 0) (0, 0) 1 (- 3), UpNext (0, 1) (0, 0) 1,
      DownNext (0, 1) (0, 1) 1, ForwardNext (0, 1) (0, 1) 1 (- 1),
      ForwardNext (0, 1) (0, 1) 1 (- 2), ForwardNext (0, 1) (0, 1) 1 (- 3),
      UpNext (1, 0) (0, 0) 1, DownNext (1, 0) (0, 1) 1,
      ForwardNext (1, 0) (0, 0) 1 (- 1), ForwardNext (1, 0) (0, 0) 1 (- 2),
      ForwardNext (1, 0) (0, 0) 1 (- 3), UpNext (1, 1) (0, 0) 1,
      DownNext (1, 1) (0, 1) 1, ForwardNext (1, 1) (0, 1) 1 (- 1),
      ForwardNext (1, 1) (0, 1) 1 (- 2), ForwardNext (1, 1) (0, 1) 1 (- 3),
      UpNext (2, 0) (1, 0) 1, DownNext (2, 0) (1, 1) 1,
      ForwardNext (2, 0) (1, 0) 1 (- 1), ForwardNext (2, 0) (0, 0) 1 (- 2),
      ForwardNext (2, 0) (0, 0) 1 (- 3), UpNext (2, 1) (1, 1) 1,
      DownNext (2, 1) (1, 1) 1, ForwardNext (2, 1) (1, 1) 1 (- 1),
      ForwardNext (2, 1) (0, 1) 1 (- 2), ForwardNext (2, 1) (0, 1) 1 (- 3),
      NextInstant 0 1, NextInstant 1 2]"

text \<open>Width 6 with agent speeds \<open>(-3, -2)\<close>, so that \<open>max_time\<close> is 4, below the width.\<close>

definition wide_snapshot :: snapshot where
  "wide_snapshot =
     \<lparr>width = 6, num_lanes = 1,
      agent = \<lparr>car_id = 0, pos_x = 5, pos_y = 0, speed_range = (- 3, - 2)\<rparr>,
      cars = [],
      finish_x = 0, finish_y = 0\<rparr>"

text \<open>What a run of \<open>simulateSolution\<close> amounts to for a comparison with \<open>generatePlan\<close>:
  the exception, or the actions handed to \<open>env.step\<close>.\<close>

definition outcome :: "error option \<times> ('e, 'a) sim \<Rightarrow> error + 'a list" where
  "outcome r = (case r of (None, st) \<Rightarrow> Inr (stepped st) | (Some er, st) \<Rightarrow> Inl er)"

text \<open>The action list of the environment for the agent speed range \<open>(-3, -1)\<close>, by name, and a
  plan file as the planner writes it.\<close>

definition env_actions :: "string list" where
  "env_actions = [''up'', ''down'', ''forward[-3]'', ''forward[-2]'', ''forward[-1]'']"

definition sample_plan :: "string list" where
  "sample_plan =
     [''(up pt3pt1 pt2pt0 1 2)'' @ [CHR 0x0A],
      ''(forward pt2pt0 pt0pt0 2 3 -2)'' @ [CHR 0x0A],
      ''; cost = 2 (unit cost)'' @ [CHR 0x0A]]"

text \<open>Width 2 and two lanes, with a car that reaches the origin cell at the last instant,
  and the facts the encoder emits for it.\<close>

definition origin_lane_snapshot :: snapshot where
  "origin_lane_snapshot =
     \<lparr>width = 2, num_lanes = 2,
      agent = \<lparr>car_id = 0, pos_x = 1, pos_y = 1, speed_range = (- 2, - 2)\<rparr>,
      cars = [\<lparr>car_id = 1, pos_x = 1, pos_y = 0, speed_range = (- 1, - 1)\<rparr>],
      finish_x = 0, finish_y = 0\<rparr>"

definition origin_lane_facts :: "fact list" where
  "origin_lane_facts =
     [At (1, 0) 0 (CarObj 1), Blocked (1, 0) 0, At (0, 0) 1 (CarObj 1),
      Blocked (0, 0) 1, NotBlocked (0, 1) 1, NotBlocked (1, 0) 1,
      NotBlocked (1, 1) 1, At (1, 1) 0 Agent1, UpNext (0, 0) (0, 0) 1,
      DownNext (0, 0) (0, 1) 1, ForwardNext (0, 0) (0, 0) 1 (- 1),
      ForwardNext (0, 0) (0, 0) 1 (- 2), ForwardNext (0, 0) (0, 0) 1 (- 3),
      UpNext (0, 1) (0, 0) 1, DownNext (0, 1) (0, 1) 1,
      ForwardNext (0, 1) (0, 1) 1 (- 1), ForwardNext (0, 1) (0, 1) 1 (- 2),
      ForwardNext (0, 1) (0, 1) 1 (- 3), UpNext (1, 0) (0, 0) 1,
      DownNext (1, 0) (0, 1) 1, ForwardNext (1, 0) (0, 0) 1 (- 1),
      ForwardNext (1, 0) (0, 0) 1 (- 2), ForwardNext (1, 0) (0, 0) 1 (- 3),
      UpNext (1, 1) (0, 0) 1, DownNext (1, 1) (0, 1) 1,
      ForwardNext (1, 1) (0, 1) 1 (- 1), ForwardNext (1, 1) (0, 1) 1 (- 2),
      ForwardNext (1, 1) (0, 1) 1 (- 3), NextInstant 0 1, NextInstant 1 2]"

text \<open>A line of the plan file: the action name and its arguments between parentheses,
  separated by single spaces, and the line break.\<close>

definition action_text :: "string \<Rightarrow> string list \<Rightarrow> string" where
  "action_text name args =
     CHR ''('' # name @ concat (map (\<lambda>a. CHR '' '' # a) args) @ '')'' @ [CHR 0x0A]"

section \<open>The projection of an obstacle\<close>

lemma project_x_mod:
  assumes "0 \<le> x0" "x0 < w" "0 \<le> sp" "0 \<le> t"
  shows "project_x w x0 sp t = (x0 - sp * t) mod w"
proof (cases "x0 - sp * t \<ge> 0")
  case True
  have "0 \<le> sp * t" using assms by simp
  then have "x0 - sp * t < w" using assms by linarith
  with True show ?thesis by (simp add: project_x_def)
next
  case False
  have "(x0 - ((sp * t) mod w) + w) mod w = (x0 - ((sp * t) mod w)) mod w"
    by simp
  also have "\<dots> = (x0 - sp * t) mod w"
    by (simp add: mod_diff_right_eq)
  finally show ?thesis using False by (simp add: project_x_def)
qed

text \<open>The expression of lines 210 and 212 is the wrapped difference, and lies within the
  grid.\<close>

lemma project_x_wraps:
  assumes "0 \<le> x0" "x0 < w" "0 \<le> sp" "0 \<le> t"
  shows "project_x w x0 sp t = (x0 - sp * t) mod w
         \<and> 0 \<le> project_x w x0 sp t \<and> project_x w x0 sp t < w"
proof -
  have w: "0 < w" using assms by linarith
  have eq: "project_x w x0 sp t = (x0 - sp * t) mod w"
    using assms by (rule project_x_mod)
  show ?thesis using w by (simp add: eq)
qed

section \<open>The grid and the occupancy invariant\<close>

lemma set_py_range: "set (py_range a b) = {i. a \<le> i \<and> i < b}"
  by (auto simp: py_range_def)

lemma distinct_py_range: "distinct (py_range a b)"
  by (simp add: py_range_def)

lemma set_generateGridCells:
  "set (generateGridCells w n) = {c. 0 \<le> fst c \<and> fst c < w \<and> 0 \<le> snd c \<and> snd c < n}"
  by (auto simp: generateGridCells_def set_py_range)

lemma distinct_generateGridCells: "distinct (generateGridCells w n)"
proof -
  have "generateGridCells w n = List.product (py_range 0 w) (py_range 0 n)"
    by (simp add: generateGridCells_def product_concat_map)
  then show ?thesis by (simp add: distinct_product distinct_py_range)
qed

lemma claim_cell_inv:
  assumes inv: "occ_inv G mt e" and t: "0 \<le> t" "t < mt"
    and fs: "\<And>c' t'. Blocked c' t' \<in> set fs \<longleftrightarrow> c' = c \<and> t' = t"
  shows "occ_inv G mt (claim_cell t fs c e)"
proof (cases "c \<in> set (free_cells e ! nat t)")
  case False
  then show ?thesis using inv by (simp add: claim_cell_def)
next
  case True
  have len: "length (free_cells e) = nat mt" using inv by (simp add: occ_inv_def)
  have nt: "nat t < length (free_cells e)" using t len by simp
  show ?thesis
    unfolding occ_inv_def
  proof (intro conjI allI impI)
    show "length (free_cells (claim_cell t fs c e)) = nat mt"
      using len by (simp add: claim_cell_def)
  next
    fix u assume u: "0 \<le> u \<and> u < mt"
    then have P: "distinct (free_cells e ! nat u)" "set (free_cells e ! nat u) \<subseteq> set G"
      "{c. Blocked c u \<in> set (initString e)} = set G - set (free_cells e ! nat u)"
      using inv by (simp_all add: occ_inv_def)
    have nu: "nat u = nat t \<longleftrightarrow> u = t" "nat t = nat u \<longleftrightarrow> u = t" using u t by auto
    show "distinct (free_cells (claim_cell t fs c e) ! nat u)"
      using True P(1) nt by (cases "u = t") (simp_all add: claim_cell_def nth_list_update nu)
    show "set (free_cells (claim_cell t fs c e) ! nat u) \<subseteq> set G"
      using True P(1,2) nt by (cases "u = t") (auto simp: claim_cell_def nth_list_update nu)
    show "{c'. Blocked c' u \<in> set (initString (claim_cell t fs c e))}
          = set G - set (free_cells (claim_cell t fs c e) ! nat u)"
    proof (cases "u = t")
      case False
      then show ?thesis using True P(3) nt fs by (auto simp: claim_cell_def nth_list_update nu)
    next
      case eq: True
      have "c \<in> set G" using True P(2) eq by auto
      then show ?thesis using True P(1,3) nt fs eq
        by (auto simp: claim_cell_def nth_list_update)
    qed
  qed
qed


lemma sweep_inv:
  assumes "occ_inv G mt e" "0 \<le> t" "t < mt"
  shows "occ_inv G mt (sweep t y xs e)"
  using assms(1) unfolding sweep_def
proof (induction xs arbitrary: e)
  case Nil
  then show ?case by simp
next
  case (Cons x xs)
  have "occ_inv G mt (claim_cell t [Blocked (x, y) t] (x, y) e)"
    using Cons.prems assms(2,3) by (rule claim_cell_inv) auto
  then show ?case using Cons.IH by simp
qed

lemma car_step_inv:
  assumes "occ_inv G mt e" "0 \<le> t" "t < mt"
  shows "occ_inv G mt (car_step w t c e)"
proof -
  let ?nx = "project_x w (pos_x c) (car_speed c) t"
  have "occ_inv G mt (claim_cell t [At (?nx, pos_y c) t (CarObj (car_id c)), Blocked (?nx, pos_y c) t]
          (?nx, pos_y c) e)"
    using assms by (rule claim_cell_inv) auto
  then show ?thesis
    using assms(2,3) by (simp add: car_step_def Let_def sweep_inv)
qed

lemma fold_car_step_inv:
  assumes "occ_inv G mt e" "0 \<le> t" "t < mt"
  shows "occ_inv G mt (fold (car_step w t) cs e)"
  using assms(1) by (induction cs arbitrary: e) (simp_all add: car_step_inv assms(2,3))

lemma instant_step_inv:
  assumes "occ_inv G mt e" "0 \<le> t" "t < mt"
  shows "occ_inv G mt (instant_step w cs t e)"
proof -
  have "occ_inv G mt (fold (car_step w t) cs e)"
    using assms by (rule fold_car_step_inv)
  then show ?thesis
    by (auto simp: instant_step_def Let_def occ_inv_def)
qed

lemma fold_instant_step_inv:
  assumes "occ_inv G mt e" "\<forall>t \<in> set ts. 0 \<le> t \<and> t < mt"
  shows "occ_inv G mt (fold (instant_step w cs) ts e)"
  using assms by (induction ts arbitrary: e) (simp_all add: instant_step_inv)

lemma block_initial_inv:
  assumes "block_initial cs e = Inr e'" "occ_inv G mt e"
  shows "occ_inv G mt e'"
  using assms
proof (induction cs arbitrary: e)
  case Nil
  then show ?case by simp
next
  case (Cons c cs)
  show ?case
  proof (cases "pos_x c \<noteq> 0 \<or> pos_y c \<noteq> 0")
    case False
    then show ?thesis using Cons by simp
  next
    case True
    let ?fs = "[At (car_pos c) 0 (CarObj (car_id c)), Blocked (car_pos c) 0]"
    have ne: "free_cells e \<noteq> []" and mem: "car_pos c \<in> set (free_cells e ! 0)"
      using Cons.prems(1) True by (auto split: if_splits)
    have "length (free_cells e) = nat mt" using Cons.prems(2) by (simp add: occ_inv_def)
    moreover have "0 < length (free_cells e)" using ne by simp
    ultimately have mt: "0 < mt" by linarith
    have step: "block_initial cs (claim_cell 0 ?fs (car_pos c) e) = Inr e'"
      using Cons.prems(1) True ne mem by (simp add: claim_cell_def)
    have "occ_inv G mt (claim_cell 0 ?fs (car_pos c) e)"
      using Cons.prems(2) _ mt by (rule claim_cell_inv) auto
    with step show ?thesis by (rule Cons.IH)
  qed
qed

lemma occ_inv_initial:
  assumes "distinct G"
  shows "occ_inv G mt \<lparr>initString = [], free_cells = replicate (nat mt) G\<rparr>"
  using assms by (auto simp: occ_inv_def)

lemma occupancy_Inr:
  assumes "occupancy s = Inr e"
  obtains mt e0 e1 where
    "max_time s = Inr mt" "2 \<le> mt"
    "block_initial (cars s)
       \<lparr>initString = [],
        free_cells = replicate (nat mt) (generateGridCells (width s) (num_lanes s))\<rparr> = Inr e0"
    "e1 = fold (instant_step (width s) (cars s)) (py_range 1 mt) e0"
    "initString e = initString e1 @ [At (car_pos (agent s)) 0 Agent1]"
    "free_cells e =
       (if (0, 0) \<notin> set (free_cells e1 ! nat (mt - 1))
        then (free_cells e1)[nat (mt - 1) := free_cells e1 ! nat (mt - 1) @ [(0, 0)]]
        else free_cells e1)"
  using assms
  by (auto simp: occupancy_def readd_origin_def Let_def split: sum.splits if_splits)

lemma occupancy_loop_inv:
  assumes "max_time s = Inr mt"
    "block_initial (cars s)
       \<lparr>initString = [],
        free_cells = replicate (nat mt) (generateGridCells (width s) (num_lanes s))\<rparr> = Inr e0"
  shows "occ_inv (generateGridCells (width s) (num_lanes s)) mt
           (fold (instant_step (width s) (cars s)) (py_range 1 mt) e0)"
proof -
  let ?G = "generateGridCells (width s) (num_lanes s)"
  have "occ_inv ?G mt e0"
    using assms(2) occ_inv_initial [OF distinct_generateGridCells] by (rule block_initial_inv)
  then show ?thesis
    by (rule fold_instant_step_inv) (auto simp: set_py_range)
qed


lemma blocked_cells_Cons:
  "c \<in> set (blocked_cells (f # fs) t) \<longleftrightarrow> f = Blocked c t \<or> c \<in> set (blocked_cells fs t)"
  by (cases f) (auto simp: blocked_cells_def)

lemma blocked_cells_iff: "c \<in> set (blocked_cells fs t) \<longleftrightarrow> Blocked c t \<in> set fs"
proof (induction fs)
  case Nil
  show ?case by (simp add: blocked_cells_def)
next
  case (Cons f fs)
  then show ?case by (auto simp: blocked_cells_Cons)
qed

lemma loop_width_pos:
  assumes "max_time s = Inr mt" "2 \<le> mt"
  shows "0 < width s"
proof (rule ccontr)
  assume "\<not> 0 < width s"
  then have w: "width s \<le> 0" by simp
  let ?m = "\<bar>max (fst (speed_range (agent s))) (snd (speed_range (agent s)))\<bar>"
  have m: "0 < ?m" and mt: "mt = width s div ?m + 1"
    using assms(1) by (auto simp: max_time_def Let_def split: if_splits)
  have "width s div ?m \<le> 0"
    using w m by (simp add: div_nonpos_pos_le0)
  then show False using mt assms(2) by simp
qed

lemma readd_nth_set:
  assumes "j < length xs"
  shows "set ((if P then xs[i := xs ! i @ [z]] else xs) ! j) = set (xs ! j)
         \<or> set ((if P then xs[i := xs ! i @ [z]] else xs) ! j) = insert z (set (xs ! j))"
proof (cases "P \<and> i = j")
  case True
  then show ?thesis using assms by simp
next
  case False
  then show ?thesis using assms by (cases P) (simp_all add: nth_list_update)
qed

lemma occupancy_cover:
  assumes occ: "occupancy s = Inr e" and mt: "max_time s = Inr mt"
    and t: "0 \<le> t" "t < mt" and lanes: "0 < num_lanes s"
  shows "set (free_cells e ! nat t) \<union> set (blocked_cells (initString e) t)
           = set (generateGridCells (width s) (num_lanes s))
         \<and> set (free_cells e ! nat t) \<inter> set (blocked_cells (initString e) t) \<subseteq> {(0, 0)}"
proof -
  define G where "G = generateGridCells (width s) (num_lanes s)"
  from occ obtain mt' e0 e1 where o:
    "max_time s = Inr mt'" "2 \<le> mt'"
    "block_initial (cars s) \<lparr>initString = [], free_cells = replicate (nat mt') (generateGridCells (width s) (num_lanes s))\<rparr> = Inr e0"
    "e1 = fold (instant_step (width s) (cars s)) (py_range 1 mt') e0"
    "initString e = initString e1 @ [At (car_pos (agent s)) 0 Agent1]"
    "free_cells e =
       (if (0, 0) \<notin> set (free_cells e1 ! nat (mt' - 1))
        then (free_cells e1)[nat (mt' - 1) := free_cells e1 ! nat (mt' - 1) @ [(0, 0)]]
        else free_cells e1)"
    by (rule occupancy_Inr)
  have eq: "mt' = mt" using o(1) mt by simp
  have inv: "occ_inv G mt e1"
    unfolding G_def o(4) eq [symmetric] using o(1,3) by (rule occupancy_loop_inv)
  have len: "length (free_cells e1) = nat mt" using inv by (simp add: occ_inv_def)
  define F1 where "F1 = set (free_cells e1 ! nat t)"
  define F where "F = set (free_cells e ! nat t)"
  define B where "B = set (blocked_cells (initString e) t)"
  have P1: "F1 \<subseteq> set G"
    using inv t by (simp add: occ_inv_def F1_def)
  have P2: "{c. Blocked c t \<in> set (initString e1)} = set G - F1"
    using inv t by (simp add: occ_inv_def F1_def)
  have "B = {c. Blocked c t \<in> set (initString e)}"
    unfolding B_def using blocked_cells_iff by blast
  also have "\<dots> = {c. Blocked c t \<in> set (initString e1)}"
    by (simp add: o(5))
  finally have B: "B = set G - F1" using P2 by simp
  have "0 < width s" using o(1,2) by (rule loop_width_pos)
  then have origin: "(0, 0) \<in> set G"
    using lanes by (simp add: set_generateGridCells G_def)
  have nt: "nat t < length (free_cells e1)" using t len by simp
  have F: "F = F1 \<or> F = insert (0, 0) F1"
    unfolding F_def F1_def o(6) using nt by (rule readd_nth_set)
  have "F \<union> B = set G \<and> F \<inter> B \<subseteq> {(0, 0)}"
    using F B P1 origin by blast
  then show ?thesis by (simp add: F_def B_def G_def)
qed


lemma blocked_cells_append:
  "blocked_cells (xs @ ys) t = blocked_cells xs t @ blocked_cells ys t"
  by (simp add: blocked_cells_def)

lemma Blocked_notin_cell_transitions: "Blocked c u \<notin> set (cell_transitions n fr t d)"
  by (auto simp: cell_transitions_def Let_def)

lemma Blocked_notin_instant_transitions: "Blocked c u \<notin> set (instant_transitions s fc t)"
  by (auto simp: instant_transitions_def Blocked_notin_cell_transitions)

lemma generateInitString_Inr:
  assumes "generateInitString s = Inr fs"
  obtains mt e where "max_time s = Inr mt" "occupancy s = Inr e"
    "fs = initString e
          @ concat (map (instant_transitions s (free_cells e)) (py_range 1 mt))
          @ map (\<lambda>i. NextInstant i (i + 1)) (py_range 0 mt)"
  using assms by (auto simp: generateInitString_def split: sum.splits)

lemma generateInitString_Blocked:
  assumes "generateInitString s = Inr fs" "occupancy s = Inr e"
  shows "Blocked c t \<in> set fs \<longleftrightarrow> Blocked c t \<in> set (initString e)"
proof -
  from assms(1) obtain mt e' where g: "occupancy s = Inr e'"
    "fs = initString e'
          @ concat (map (instant_transitions s (free_cells e')) (py_range 1 mt))
          @ map (\<lambda>i. NextInstant i (i + 1)) (py_range 0 mt)"
    by (rule generateInitString_Inr)
  have "e' = e" using g(1) assms(2) by simp
  then show ?thesis
    unfolding g(2) by (auto simp: Blocked_notin_instant_transitions)
qed


lemma origin_car_max_time: "max_time origin_car_snapshot = Inr 3"
  unfolding origin_car_snapshot_def by code_simp

lemma origin_car_occupancy: "occupancy origin_car_snapshot = Inr origin_car_enc"
  unfolding origin_car_snapshot_def origin_car_enc_def by code_simp

lemma origin_car_generateInitString:
  "generateInitString origin_car_snapshot = Inr origin_car_facts"
  unfolding origin_car_snapshot_def origin_car_facts_def by code_simp

section \<open>Blocked and free cells\<close>

text \<open>
  Claim C1, as the code has it.  Whenever the encoder returns, at every instant \<open>t\<close> of
  \<open>range(max_time)\<close> the cells of \<open>free_cells[t]\<close> together with the cells given a
  \<open>blocked\<close> fact at \<open>t\<close> are exactly the cells of the grid, and no cell other than the
  origin \<open>(0, 0)\<close> is in both.  (Line 238 puts the origin back into \<open>free_cells\<close> of
  the last instant even when a \<open>blocked\<close> fact was emitted for it.)
\<close>

theorem blocked_free_cover:
  assumes gen: "generateInitString s = Inr fs" and occ: "occupancy s = Inr e"
    and mt: "max_time s = Inr mt" and t: "0 \<le> t" "t < mt" and lanes: "0 < num_lanes s"
  shows "set (free_cells e ! nat t) \<union> set (blocked_cells fs t)
           = set (generateGridCells (width s) (num_lanes s))
         \<and> set (free_cells e ! nat t) \<inter> set (blocked_cells fs t) \<subseteq> {(0, 0)}"
proof -
  have "set (blocked_cells fs t) = set (blocked_cells (initString e) t)"
    using generateInitString_Blocked [OF gen occ] by (auto simp: blocked_cells_iff)
  then show ?thesis
    using occupancy_cover [OF occ mt t lanes] by simp
qed

theorem blocked_free_cover_witness:
  "generateInitString origin_car_snapshot = Inr origin_car_facts
   \<and> occupancy origin_car_snapshot = Inr origin_car_enc
   \<and> max_time origin_car_snapshot = Inr 3
   \<and> (0::int) \<le> 1 \<and> (1::int) < 3 \<and> 0 < num_lanes origin_car_snapshot
   \<and> set (free_cells origin_car_enc ! nat 1) \<union> set (blocked_cells origin_car_facts 1)
       = set (generateGridCells (width origin_car_snapshot) (num_lanes origin_car_snapshot))
   \<and> set (free_cells origin_car_enc ! nat 1) \<inter> set (blocked_cells origin_car_facts 1) = {}"
proof -
  have lanes: "0 < num_lanes origin_car_snapshot"
    by (simp add: origin_car_snapshot_def)
  have "set (free_cells origin_car_enc ! nat 1) \<inter> set (blocked_cells origin_car_facts 1) = {}"
    by (simp add: origin_car_enc_def origin_car_facts_def blocked_cells_def)
  then show ?thesis
    using blocked_free_cover [OF origin_car_generateInitString origin_car_occupancy
        origin_car_max_time, of 1] lanes
      origin_car_generateInitString origin_car_occupancy origin_car_max_time
    by simp
qed

text \<open>At the last instant of that snapshot the origin cell is given a \<open>blocked\<close> fact and
  is in \<open>free_cells\<close> as well: the two sets are not disjoint.\<close>

theorem origin_blocked_and_free:
  "generateInitString origin_car_snapshot = Inr origin_car_facts
   \<and> occupancy origin_car_snapshot = Inr origin_car_enc
   \<and> max_time origin_car_snapshot = Inr 3
   \<and> (0, 0) \<in> set (free_cells origin_car_enc ! nat 2)
   \<and> (0, 0) \<in> set (blocked_cells origin_car_facts 2)"
proof -
  have "(0, 0) \<in> set (free_cells origin_car_enc ! nat 2)"
    by (simp add: origin_car_enc_def numeral_2_eq_2)
  moreover have "(0, 0) \<in> set (blocked_cells origin_car_facts 2)"
    by (simp add: origin_car_facts_def blocked_cells_def)
  ultimately show ?thesis
    using origin_car_generateInitString origin_car_occupancy origin_car_max_time by simp
qed

section \<open>Facts are only ever appended\<close>

lemma claim_cell_mono: "set (initString e) \<subseteq> set (initString (claim_cell t fs c e))"
  by (simp add: claim_cell_def)

lemma sweep_mono: "set (initString e) \<subseteq> set (initString (sweep t y xs e))"
  unfolding sweep_def
proof (induction xs arbitrary: e)
  case Nil
  show ?case by simp
next
  case (Cons x xs)
  show ?case using claim_cell_mono Cons.IH by (simp, blast)
qed

lemma car_step_mono: "set (initString e) \<subseteq> set (initString (car_step w t c e))"
  using claim_cell_mono sweep_mono by (simp add: car_step_def Let_def, blast)

lemma fold_car_step_mono: "set (initString e) \<subseteq> set (initString (fold (car_step w t) cs e))"
proof (induction cs arbitrary: e)
  case Nil
  show ?case by simp
next
  case (Cons c cs)
  show ?case using car_step_mono Cons.IH by (simp, blast)
qed

lemma instant_step_mono: "set (initString e) \<subseteq> set (initString (instant_step w cs t e))"
  using fold_car_step_mono by (simp add: instant_step_def Let_def, blast)

lemma fold_instant_step_mono:
  "set (initString e) \<subseteq> set (initString (fold (instant_step w cs) ts e))"
proof (induction ts arbitrary: e)
  case Nil
  show ?case by simp
next
  case (Cons t ts)
  show ?case using instant_step_mono Cons.IH by (simp, blast)
qed

section \<open>Where a blocked fact comes from\<close>

lemma claim_cell_Blocked:
  assumes "Blocked d u \<in> set (initString (claim_cell t fs c e))"
  shows "Blocked d u \<in> set (initString e) \<or> Blocked d u \<in> set fs"
  using assms by (auto simp: claim_cell_def split: if_splits)

lemma sweep_Blocked:
  assumes "Blocked d u \<in> set (initString (sweep t y xs e))"
  shows "Blocked d u \<in> set (initString e) \<or> (u = t \<and> snd d = y)"
  using assms unfolding sweep_def
proof (induction xs arbitrary: e)
  case Nil
  then show ?case by simp
next
  case (Cons x xs)
  then have "Blocked d u \<in> set (initString (claim_cell t [Blocked (x, y) t] (x, y) e))
             \<or> (u = t \<and> snd d = y)"
    by simp
  then show ?case using claim_cell_Blocked by fastforce
qed

lemma car_step_Blocked:
  assumes "Blocked d u \<in> set (initString (car_step w t c e))"
  shows "Blocked d u \<in> set (initString e) \<or> (u = t \<and> snd d = pos_y c)"
proof -
  define nx where "nx = project_x w (pos_x c) (car_speed c) t"
  define e1 where "e1 = claim_cell t [At (nx, pos_y c) t (CarObj (car_id c)), Blocked (nx, pos_y c) t]
                          (nx, pos_y c) e"
  have "Blocked d u \<in> set (initString e1) \<or> (u = t \<and> snd d = pos_y c)"
    using assms sweep_Blocked
    by (auto simp: car_step_def Let_def e1_def nx_def split: if_splits)
  then show ?thesis
    unfolding e1_def using claim_cell_Blocked by fastforce
qed

lemma fold_car_step_Blocked:
  assumes "Blocked d u \<in> set (initString (fold (car_step w t) cs e))"
  shows "Blocked d u \<in> set (initString e) \<or> (u = t \<and> snd d \<in> pos_y ` set cs)"
  using assms
proof (induction cs arbitrary: e)
  case Nil
  then show ?case by simp
next
  case (Cons c cs)
  then have "Blocked d u \<in> set (initString (car_step w t c e)) \<or> (u = t \<and> snd d \<in> pos_y ` set cs)"
    by simp
  then show ?case using car_step_Blocked by fastforce
qed

lemma instant_step_Blocked:
  assumes "Blocked d u \<in> set (initString (instant_step w cs t e))"
  shows "Blocked d u \<in> set (initString e) \<or> (u = t \<and> snd d \<in> pos_y ` set cs)"
proof -
  have "Blocked d u \<in> set (initString (fold (car_step w t) cs e))"
    using assms by (auto simp: instant_step_def Let_def)
  then show ?thesis by (rule fold_car_step_Blocked)
qed

lemma fold_instant_step_Blocked:
  assumes "Blocked d u \<in> set (initString (fold (instant_step w cs) ts e))"
  shows "Blocked d u \<in> set (initString e) \<or> (u \<in> set ts \<and> snd d \<in> pos_y ` set cs)"
  using assms
proof (induction ts arbitrary: e)
  case Nil
  then show ?case by simp
next
  case (Cons t ts)
  then have "Blocked d u \<in> set (initString (instant_step w cs t e))
             \<or> (u \<in> set ts \<and> snd d \<in> pos_y ` set cs)"
    by simp
  then show ?case using instant_step_Blocked by fastforce
qed

lemma block_initial_Blocked:
  assumes "block_initial cs e = Inr e'" "Blocked d u \<in> set (initString e')"
  shows "Blocked d u \<in> set (initString e)
         \<or> (u = 0 \<and> d \<noteq> (0, 0) \<and> d \<in> car_pos ` set cs)"
  using assms
proof (induction cs arbitrary: e)
  case Nil
  then show ?case by simp
next
  case (Cons c cs)
  show ?case
  proof (cases "pos_x c \<noteq> 0 \<or> pos_y c \<noteq> 0")
    case False
    then show ?thesis using Cons by auto
  next
    case True
    define e1 where "e1 = \<lparr>initString = initString e @ [At (car_pos c) 0 (CarObj (car_id c)), Blocked (car_pos c) 0],
            free_cells = (free_cells e)[0 := remove1 (car_pos c) (free_cells e ! 0)]\<rparr>"
    have step: "block_initial cs e1 = Inr e'"
      using Cons.prems(1) True by (auto simp: e1_def split: if_splits)
    have "Blocked d u \<in> set (initString e1) \<or> (u = 0 \<and> d \<noteq> (0, 0) \<and> d \<in> car_pos ` set cs)"
      using step Cons.prems(2) by (rule Cons.IH)
    moreover have "car_pos c \<noteq> (0, 0)" using True by (auto simp: car_pos_def)
    ultimately show ?thesis by (auto simp: e1_def)
  qed
qed

lemma block_initial_mono:
  assumes "block_initial cs e = Inr e'"
  shows "set (initString e) \<subseteq> set (initString e')"
  using assms
proof (induction cs arbitrary: e)
  case Nil
  then show ?case by simp
next
  case (Cons c cs)
  show ?case
  proof (cases "pos_x c \<noteq> 0 \<or> pos_y c \<noteq> 0")
    case False
    then show ?thesis using Cons by auto
  next
    case True
    define e1 where "e1 = \<lparr>initString = initString e @ [At (car_pos c) 0 (CarObj (car_id c)), Blocked (car_pos c) 0],
            free_cells = (free_cells e)[0 := remove1 (car_pos c) (free_cells e ! 0)]\<rparr>"
    have step: "block_initial cs e1 = Inr e'"
      using Cons.prems(1) True by (auto simp: e1_def split: if_splits)
    have "set (initString e1) \<subseteq> set (initString e')"
      using step by (rule Cons.IH)
    then show ?thesis by (auto simp: e1_def)
  qed
qed

lemma block_initial_blocks:
  assumes "block_initial cs e = Inr e'" "c \<in> set cs" "car_pos c \<noteq> (0, 0)"
  shows "Blocked (car_pos c) 0 \<in> set (initString e')"
  using assms(1,2)
proof (induction cs arbitrary: e)
  case Nil
  then show ?case by simp
next
  case (Cons a cs)
  show ?case
  proof (cases "pos_x a \<noteq> 0 \<or> pos_y a \<noteq> 0")
    case False
    then have "a \<noteq> c" using assms(3) by (auto simp: car_pos_def)
    then show ?thesis using Cons False by auto
  next
    case True
    define e1 where "e1 = \<lparr>initString = initString e @ [At (car_pos a) 0 (CarObj (car_id a)), Blocked (car_pos a) 0],
            free_cells = (free_cells e)[0 := remove1 (car_pos a) (free_cells e ! 0)]\<rparr>"
    have step: "block_initial cs e1 = Inr e'"
      using Cons.prems(1) True by (auto simp: e1_def split: if_splits)
    show ?thesis
    proof (cases "a = c")
      case True
      have "Blocked (car_pos c) 0 \<in> set (initString e1)" using True by (simp add: e1_def)
      then show ?thesis using block_initial_mono [OF step] by blast
    next
      case False
      then have "c \<in> set cs" using Cons.prems(2) by simp
      with step show ?thesis by (rule Cons.IH)
    qed
  qed
qed

lemma occupancy_Blocked_source:
  assumes "occupancy s = Inr e" "Blocked d u \<in> set (initString e)"
  shows "(u = 0 \<and> d \<noteq> (0, 0) \<and> d \<in> car_pos ` set (cars s))
         \<or> (1 \<le> u \<and> snd d \<in> pos_y ` set (cars s))"
proof -
  from assms(1) obtain mt e0 e1 where o:
    "max_time s = Inr mt" "2 \<le> mt"
    "block_initial (cars s) \<lparr>initString = [], free_cells = replicate (nat mt) (generateGridCells (width s) (num_lanes s))\<rparr> = Inr e0"
    "e1 = fold (instant_step (width s) (cars s)) (py_range 1 mt) e0"
    "initString e = initString e1 @ [At (car_pos (agent s)) 0 Agent1]"
    by (rule occupancy_Inr)
  have "Blocked d u \<in> set (initString e1)" using assms(2) o(5) by simp
  then have "Blocked d u \<in> set (initString e0)
             \<or> (u \<in> set (py_range 1 mt) \<and> snd d \<in> pos_y ` set (cars s))"
    unfolding o(4) by (rule fold_instant_step_Blocked)
  moreover have "Blocked d u \<in> set (initString e0) \<Longrightarrow>
                 u = 0 \<and> d \<noteq> (0, 0) \<and> d \<in> car_pos ` set (cars s)"
    using block_initial_Blocked [OF o(3)] by simp
  ultimately show ?thesis by (auto simp: set_py_range)
qed

lemma occupancy_initial_blocks:
  assumes "occupancy s = Inr e" "c \<in> set (cars s)" "car_pos c \<noteq> (0, 0)"
  shows "Blocked (car_pos c) 0 \<in> set (initString e)"
proof -
  from assms(1) obtain mt e0 e1 where o:
    "block_initial (cars s) \<lparr>initString = [], free_cells = replicate (nat mt) (generateGridCells (width s) (num_lanes s))\<rparr> = Inr e0"
    "e1 = fold (instant_step (width s) (cars s)) (py_range 1 mt) e0"
    "initString e = initString e1 @ [At (car_pos (agent s)) 0 Agent1]"
    by (rule occupancy_Inr)
  have "Blocked (car_pos c) 0 \<in> set (initString e0)"
    using o(1) assms(2,3) by (rule block_initial_blocks)
  then have "Blocked (car_pos c) 0 \<in> set (initString e1)"
    unfolding o(2) using fold_instant_step_mono by blast
  then show ?thesis by (simp add: o(3))
qed

lemma occupancy_origin_free:
  assumes occ: "occupancy s = Inr e"
    and grid: "(0, 0) \<in> set (generateGridCells (width s) (num_lanes s))"
  shows "(0, 0) \<in> set (free_cells e ! 0)"
proof -
  define G where "G = generateGridCells (width s) (num_lanes s)"
  from occ obtain mt e0 e1 where o:
    "max_time s = Inr mt" "2 \<le> mt"
    "block_initial (cars s) \<lparr>initString = [], free_cells = replicate (nat mt) (generateGridCells (width s) (num_lanes s))\<rparr> = Inr e0"
    "e1 = fold (instant_step (width s) (cars s)) (py_range 1 mt) e0"
    "initString e = initString e1 @ [At (car_pos (agent s)) 0 Agent1]"
    "free_cells e =
       (if (0, 0) \<notin> set (free_cells e1 ! nat (mt - 1))
        then (free_cells e1)[nat (mt - 1) := free_cells e1 ! nat (mt - 1) @ [(0, 0)]]
        else free_cells e1)"
    by (rule occupancy_Inr)
  have inv: "occ_inv G mt e1"
    unfolding G_def o(4) using o(1,3) by (rule occupancy_loop_inv)
  have "Blocked (0, 0) 0 \<notin> set (initString e)"
    using occupancy_Blocked_source [OF occ, of "(0, 0)" 0] by auto
  then have nb: "Blocked (0, 0) 0 \<notin> set (initString e1)" by (simp add: o(5))
  have "{c. Blocked c 0 \<in> set (initString e1)} = set G - set (free_cells e1 ! nat 0)"
    using inv o(2) by (simp add: occ_inv_def)
  then have "(0, 0) \<in> set (free_cells e1 ! 0)"
    using nb grid by (auto simp: G_def)
  moreover have "free_cells e ! 0 = free_cells e1 ! 0"
  proof -
    have "nat (mt - 1) \<noteq> 0" using o(2) by simp
    then show ?thesis unfolding o(6) by simp
  qed
  ultimately show ?thesis by simp
qed

lemma claim_cell_occ_fact:
  assumes "list_all occ_fact (initString e)" "list_all occ_fact fs"
  shows "list_all occ_fact (initString (claim_cell t fs c e))"
  using assms by (simp add: claim_cell_def)

lemma sweep_occ_fact:
  assumes "list_all occ_fact (initString e)"
  shows "list_all occ_fact (initString (sweep t y xs e))"
  using assms unfolding sweep_def
  by (induction xs arbitrary: e) (simp_all add: claim_cell_occ_fact)

lemma car_step_occ_fact:
  assumes "list_all occ_fact (initString e)"
  shows "list_all occ_fact (initString (car_step w t c e))"
  using assms by (simp add: car_step_def Let_def sweep_occ_fact claim_cell_occ_fact)

lemma fold_car_step_occ_fact:
  assumes "list_all occ_fact (initString e)"
  shows "list_all occ_fact (initString (fold (car_step w t) cs e))"
  using assms by (induction cs arbitrary: e) (simp_all add: car_step_occ_fact)

lemma instant_step_occ_fact:
  assumes "list_all occ_fact (initString e)"
  shows "list_all occ_fact (initString (instant_step w cs t e))"
proof -
  have "list_all occ_fact (initString (fold (car_step w t) cs e))"
    using assms by (rule fold_car_step_occ_fact)
  then show ?thesis
    by (auto simp: instant_step_def Let_def list_all_iff)
qed

lemma fold_instant_step_occ_fact:
  assumes "list_all occ_fact (initString e)"
  shows "list_all occ_fact (initString (fold (instant_step w cs) ts e))"
  using assms by (induction ts arbitrary: e) (simp_all add: instant_step_occ_fact)

lemma block_initial_occ_fact:
  assumes "block_initial cs e = Inr e'" "list_all occ_fact (initString e)"
  shows "list_all occ_fact (initString e')"
  using assms
proof (induction cs arbitrary: e)
  case Nil
  then show ?case by simp
next
  case (Cons c cs)
  show ?case
  proof (cases "pos_x c \<noteq> 0 \<or> pos_y c \<noteq> 0")
    case False
    then show ?thesis using Cons by auto
  next
    case True
    define e1 where "e1 = \<lparr>initString = initString e @ [At (car_pos c) 0 (CarObj (car_id c)), Blocked (car_pos c) 0],
            free_cells = (free_cells e)[0 := remove1 (car_pos c) (free_cells e ! 0)]\<rparr>"
    have step: "block_initial cs e1 = Inr e'"
      using Cons.prems(1) True by (auto simp: e1_def split: if_splits)
    have "list_all occ_fact (initString e1)"
      using Cons.prems(2) by (simp add: e1_def)
    with step show ?thesis by (rule Cons.IH)
  qed
qed

lemma occupancy_facts:
  assumes "occupancy s = Inr e"
  obtains fs0 where "initString e = fs0 @ [At (car_pos (agent s)) 0 Agent1]"
    "list_all occ_fact fs0"
proof -
  from assms obtain mt e0 e1 where o:
    "block_initial (cars s) \<lparr>initString = [], free_cells = replicate (nat mt) (generateGridCells (width s) (num_lanes s))\<rparr> = Inr e0"
    "e1 = fold (instant_step (width s) (cars s)) (py_range 1 mt) e0"
    "initString e = initString e1 @ [At (car_pos (agent s)) 0 Agent1]"
    by (rule occupancy_Inr)
  have "list_all occ_fact (initString e0)"
    using o(1) by (rule block_initial_occ_fact) simp
  then have "list_all occ_fact (initString e1)"
    unfolding o(2) by (rule fold_instant_step_occ_fact)
  with o(3) show ?thesis by (rule that)
qed

lemma At_agent_notin_cell_transitions: "At d u ob \<notin> set (cell_transitions n fr t c)"
  by (auto simp: cell_transitions_def Let_def)

lemma At_agent_notin_instant_transitions: "At d u ob \<notin> set (instant_transitions s fc t)"
  by (auto simp: instant_transitions_def At_agent_notin_cell_transitions)

lemma generateInitString_agent_At:
  assumes "generateInitString s = Inr fs"
  shows "At d u Agent1 \<in> set fs \<longleftrightarrow> d = car_pos (agent s) \<and> u = 0"
proof -
  from assms obtain mt e where g: "occupancy s = Inr e"
    "fs = initString e
          @ concat (map (instant_transitions s (free_cells e)) (py_range 1 mt))
          @ map (\<lambda>i. NextInstant i (i + 1)) (py_range 0 mt)"
    by (rule generateInitString_Inr)
  from g(1) obtain fs0 where f: "initString e = fs0 @ [At (car_pos (agent s)) 0 Agent1]"
    "list_all occ_fact fs0"
    by (rule occupancy_facts)
  have "At d u Agent1 \<notin> set fs0"
    using f(2) by (auto simp: list_all_iff)
  then show ?thesis
    unfolding g(2) f(1) by (auto simp: At_agent_notin_instant_transitions)
qed

lemma occupancy_agent_moved:
  "occupancy (s\<lparr>agent := (agent s)\<lparr>pos_x := x, pos_y := y\<rparr>\<rparr>)
   = map_sum id (\<lambda>e. e\<lparr>initString := butlast (initString e) @ [At (x, y) 0 Agent1]\<rparr>) (occupancy s)"
  by (simp add: occupancy_def max_time_def readd_origin_def Let_def car_pos_def split: sum.splits)

lemma blocked_cells_At_Cons: "blocked_cells (At a b ob # fs) t = blocked_cells fs t"
  by (simp add: blocked_cells_def)

lemma generateInitString_agent_moved:
  "map_sum id (\<lambda>fs. blocked_cells fs t)
     (generateInitString (s\<lparr>agent := (agent s)\<lparr>pos_x := x, pos_y := y\<rparr>\<rparr>))
   = map_sum id (\<lambda>fs. blocked_cells fs t) (generateInitString s)"
proof -
  define s' where "s' = s\<lparr>agent := (agent s)\<lparr>pos_x := x, pos_y := y\<rparr>\<rparr>"
  have mt: "max_time s' = max_time s"
    by (simp add: s'_def max_time_def)
  have tr: "instant_transitions s' = instant_transitions s"
    by (simp add: s'_def instant_transitions_def fun_eq_iff)
  have occ: "occupancy s'
      = map_sum id (\<lambda>e. e\<lparr>initString := butlast (initString e) @ [At (x, y) 0 Agent1]\<rparr>) (occupancy s)"
    unfolding s'_def by (rule occupancy_agent_moved)
  show ?thesis
  proof (cases "occupancy s")
    case (Inl er)
    then show ?thesis
      unfolding s'_def [symmetric]
      by (simp add: generateInitString_def mt occ split: sum.splits)
  next
    case (Inr e)
    then obtain fs0 where f: "initString e = fs0 @ [At (car_pos (agent s)) 0 Agent1]"
      using occupancy_facts by blast
    show ?thesis
      unfolding s'_def [symmetric]
      using Inr f
      by (simp add: generateInitString_def mt occ tr blocked_cells_append blocked_cells_At_Cons
            split: sum.splits)
  qed
qed

section \<open>Instant 0 and the agent\<close>

text \<open>
  Claim C7.  Whenever the encoder returns: every car whose cell is not the origin has a
  \<open>blocked\<close> fact for its cell at instant 0; the origin has no \<open>blocked\<close> fact at instant
  0 and, when it is a grid cell, it is still in \<open>free_cells[0]\<close>; the only fact naming
  \<open>agent1\<close> is its \<open>at\<close> fact at instant 0; and the \<open>blocked\<close> facts at every instant are
  the same wherever the agent stands, so its position never yields one.
\<close>

theorem initial_blocking:
  assumes gen: "generateInitString s = Inr fs" and occ: "occupancy s = Inr e"
  shows "(\<forall>c \<in> set (cars s). car_pos c \<noteq> (0, 0) \<longrightarrow> Blocked (car_pos c) 0 \<in> set fs)
       \<and> Blocked (0, 0) 0 \<notin> set fs
       \<and> ((0, 0) \<in> set (generateGridCells (width s) (num_lanes s)) \<longrightarrow> (0, 0) \<in> set (free_cells e ! 0))
       \<and> (\<forall>d u. At d u Agent1 \<in> set fs \<longleftrightarrow> d = car_pos (agent s) \<and> u = 0)
       \<and> (\<forall>x y t. map_sum id (\<lambda>fs'. blocked_cells fs' t)
                     (generateInitString (s\<lparr>agent := (agent s)\<lparr>pos_x := x, pos_y := y\<rparr>\<rparr>))
                   = Inr (blocked_cells fs t))"
proof (intro conjI ballI impI allI)
  fix c assume "c \<in> set (cars s)" "car_pos c \<noteq> (0, 0)"
  then have "Blocked (car_pos c) 0 \<in> set (initString e)"
    using occ occupancy_initial_blocks by blast
  then show "Blocked (car_pos c) 0 \<in> set fs"
    using generateInitString_Blocked [OF gen occ] by simp
next
  have "Blocked (0, 0) 0 \<notin> set (initString e)"
    using occupancy_Blocked_source [OF occ, of "(0, 0)" 0] by auto
  then show "Blocked (0, 0) 0 \<notin> set fs"
    using generateInitString_Blocked [OF gen occ] by simp
next
  assume "(0, 0) \<in> set (generateGridCells (width s) (num_lanes s))"
  with occ show "(0, 0) \<in> set (free_cells e ! 0)" by (rule occupancy_origin_free)
next
  fix d u
  show "At d u Agent1 \<in> set fs \<longleftrightarrow> d = car_pos (agent s) \<and> u = 0"
    using gen by (rule generateInitString_agent_At)
next
  fix x y t
  show "map_sum id (\<lambda>fs'. blocked_cells fs' t)
          (generateInitString (s\<lparr>agent := (agent s)\<lparr>pos_x := x, pos_y := y\<rparr>\<rparr>))
        = Inr (blocked_cells fs t)"
    by (simp add: generateInitString_agent_moved gen)
qed

lemma two_car_generateInitString:
  "generateInitString two_car_snapshot = Inr (projr (generateInitString two_car_snapshot))"
  unfolding two_car_snapshot_def by code_simp

lemma two_car_occupancy:
  "occupancy two_car_snapshot = Inr (projr (occupancy two_car_snapshot))"
  unfolding two_car_snapshot_def by code_simp

lemma two_car_cars:
  "cars two_car_snapshot ! 1 \<in> set (cars two_car_snapshot)"
  "car_pos (cars two_car_snapshot ! 1) = (1, 0)"
  "(0, 0) \<in> set (generateGridCells (width two_car_snapshot) (num_lanes two_car_snapshot))"
  "car_pos (agent two_car_snapshot) = (1, 0)"
  unfolding two_car_snapshot_def by code_simp+

theorem initial_blocking_witness:
  "generateInitString two_car_snapshot = Inr (projr (generateInitString two_car_snapshot))
   \<and> occupancy two_car_snapshot = Inr (projr (occupancy two_car_snapshot))
   \<and> cars two_car_snapshot ! 1 \<in> set (cars two_car_snapshot)
   \<and> car_pos (cars two_car_snapshot ! 1) = (1, 0)
   \<and> Blocked (1, 0) 0 \<in> set (projr (generateInitString two_car_snapshot))
   \<and> Blocked (0, 0) 0 \<notin> set (projr (generateInitString two_car_snapshot))
   \<and> (0, 0) \<in> set (free_cells (projr (occupancy two_car_snapshot)) ! 0)
   \<and> At (1, 0) 0 Agent1 \<in> set (projr (generateInitString two_car_snapshot))"
  using initial_blocking [OF two_car_generateInitString two_car_occupancy]
    two_car_generateInitString two_car_occupancy two_car_cars
  by (metis (no_types, lifting) prod.inject zero_neq_one)

section \<open>Cells leave the free lists and never return inside the loops\<close>

lemma list_update_remove1_subset:
  "set ((xs[i := remove1 c (xs ! i)]) ! j) \<subseteq> set (xs ! j)"
proof (cases "i < length xs")
  case True
  then show ?thesis
    using set_remove1_subset [of c "xs ! i"] by (cases "i = j") (simp_all add: nth_list_update)
next
  case False
  then have "xs[i := remove1 c (xs ! i)] = xs" by (simp add: list_update_beyond)
  then show ?thesis by simp
qed

lemma claim_cell_free_subset:
  "set (free_cells (claim_cell t fs c e) ! j) \<subseteq> set (free_cells e ! j)"
  using list_update_remove1_subset [of "free_cells e" "nat t" c j]
  by (simp add: claim_cell_def)

lemma sweep_free_subset:
  "set (free_cells (sweep t y xs e) ! j) \<subseteq> set (free_cells e ! j)"
  unfolding sweep_def
proof (induction xs arbitrary: e)
  case Nil
  show ?case by simp
next
  case (Cons x xs)
  show ?case using claim_cell_free_subset Cons.IH by (simp, blast)
qed

lemma car_step_free_subset:
  "set (free_cells (car_step w t c e) ! j) \<subseteq> set (free_cells e ! j)"
  using claim_cell_free_subset sweep_free_subset
  by (simp add: car_step_def Let_def, blast)

lemma fold_car_step_free_subset:
  "set (free_cells (fold (car_step w t) cs e) ! j) \<subseteq> set (free_cells e ! j)"
proof (induction cs arbitrary: e)
  case Nil
  show ?case by simp
next
  case (Cons c cs)
  show ?case using car_step_free_subset Cons.IH by (simp, blast)
qed

lemma instant_step_free_subset:
  "set (free_cells (instant_step w cs t e) ! j) \<subseteq> set (free_cells e ! j)"
  using fold_car_step_free_subset by (simp add: instant_step_def Let_def)

lemma fold_instant_step_free_subset:
  "set (free_cells (fold (instant_step w cs) ts e) ! j) \<subseteq> set (free_cells e ! j)"
proof (induction ts arbitrary: e)
  case Nil
  show ?case by simp
next
  case (Cons t ts)
  show ?case using instant_step_free_subset Cons.IH by (simp, blast)
qed

lemma claim_cell_removes:
  assumes "occ_inv G mt e" "0 \<le> t" "t < mt"
  shows "c \<notin> set (free_cells (claim_cell t fs c e) ! nat t)"
proof -
  have "nat t < length (free_cells e)" "distinct (free_cells e ! nat t)"
    using assms by (simp_all add: occ_inv_def)
  then show ?thesis by (simp add: claim_cell_def)
qed

lemma sweep_removes:
  assumes "occ_inv G mt e" "0 \<le> t" "t < mt" "x \<in> set xs"
  shows "(x, y) \<notin> set (free_cells (sweep t y xs e) ! nat t)"
  using assms(1,4)
proof (induction xs arbitrary: e)
  case Nil
  then show ?case by simp
next
  case (Cons a xs)
  define e1 where "e1 = claim_cell t [Blocked (a, y) t] (a, y) e"
  have inv1: "occ_inv G mt e1"
    unfolding e1_def using Cons.prems(1) assms(2,3) by (rule claim_cell_inv) auto
  have sw: "sweep t y (a # xs) e = sweep t y xs e1"
    by (simp add: sweep_def e1_def)
  show ?case
  proof (cases "x = a")
    case True
    have "(a, y) \<notin> set (free_cells e1 ! nat t)"
      unfolding e1_def using Cons.prems(1) assms(2,3) by (rule claim_cell_removes)
    then show ?thesis using sweep_free_subset True sw by fastforce
  next
    case False
    then have "x \<in> set xs" using Cons.prems(2) by simp
    with inv1 show ?thesis unfolding sw by (rule Cons.IH)
  qed
qed

lemma car_step_removes:
  assumes inv: "occ_inv G mt e" and t: "0 \<le> t" "t < mt"
    and nx: "nx = project_x w (pos_x c) (car_speed c) t"
    and px: "px = project_x w (pos_x c) (car_speed c) (t - 1)"
    and x: "x = nx \<or> (nx < px \<and> 1 < car_speed c \<and> nx < x \<and> x < px)
            \<or> (px < nx \<and> (0 \<le> x \<and> x < px \<or> nx < x \<and> x < w))"
  shows "(x, pos_y c) \<notin> set (free_cells (car_step w t c e) ! nat t)"
proof -
  define e1 where "e1 = claim_cell t [At (nx, pos_y c) t (CarObj (car_id c)), Blocked (nx, pos_y c) t]
                          (nx, pos_y c) e"
  have inv1: "occ_inv G mt e1"
    unfolding e1_def using inv t by (rule claim_cell_inv) auto
  have first: "(nx, pos_y c) \<notin> set (free_cells e1 ! nat t)"
    unfolding e1_def using inv t by (rule claim_cell_removes)
  have step: "car_step w t c e =
     (if nx < px \<and> car_speed c > 1 then sweep t (pos_y c) (py_range (nx + 1) px) e1
      else if nx > px then sweep t (pos_y c) (py_range 0 px @ py_range (nx + 1) w) e1
      else e1)"
    by (simp add: car_step_def Let_def e1_def nx px)
  from x consider (a) "x = nx" | (b) "nx < px" "1 < car_speed c" "nx < x" "x < px"
    | (c) "px < nx" "0 \<le> x \<and> x < px \<or> nx < x \<and> x < w"
    by blast
  then show ?thesis
  proof cases
    case a
    have "set (free_cells (car_step w t c e) ! nat t) \<subseteq> set (free_cells e1 ! nat t)"
      unfolding step using sweep_free_subset by simp
    then show ?thesis using first a by blast
  next
    case b
    have "x \<in> set (py_range (nx + 1) px)" using b by (simp add: set_py_range)
    with inv1 t have "(x, pos_y c) \<notin> set (free_cells (sweep t (pos_y c) (py_range (nx + 1) px) e1) ! nat t)"
      by (rule sweep_removes)
    then show ?thesis unfolding step using b by simp
  next
    case c
    have "x \<in> set (py_range 0 px @ py_range (nx + 1) w)" using c by (auto simp: set_py_range)
    with inv1 t have "(x, pos_y c) \<notin> set (free_cells (sweep t (pos_y c) (py_range 0 px @ py_range (nx + 1) w) e1) ! nat t)"
      by (rule sweep_removes)
    then show ?thesis unfolding step using c by simp
  qed
qed

lemma fold_car_step_removes:
  assumes inv: "occ_inv G mt e" and t: "0 \<le> t" "t < mt" and c: "c \<in> set cs"
    and nx: "nx = project_x w (pos_x c) (car_speed c) t"
    and px: "px = project_x w (pos_x c) (car_speed c) (t - 1)"
    and x: "x = nx \<or> (nx < px \<and> 1 < car_speed c \<and> nx < x \<and> x < px)
            \<or> (px < nx \<and> (0 \<le> x \<and> x < px \<or> nx < x \<and> x < w))"
  shows "(x, pos_y c) \<notin> set (free_cells (fold (car_step w t) cs e) ! nat t)"
  using inv c
proof (induction cs arbitrary: e)
  case Nil
  then show ?case by simp
next
  case (Cons a cs)
  have inv1: "occ_inv G mt (car_step w t a e)"
    using Cons.prems(1) t by (rule car_step_inv)
  show ?case
  proof (cases "a = c")
    case True
    have "(x, pos_y c) \<notin> set (free_cells (car_step w t c e) ! nat t)"
      using Cons.prems(1) t nx px x by (rule car_step_removes)
    then show ?thesis using fold_car_step_free_subset True by fastforce
  next
    case False
    then have "c \<in> set cs" using Cons.prems(2) by simp
    with inv1 show ?thesis unfolding fold_simps by (rule Cons.IH)
  qed
qed

lemma instant_step_removes:
  assumes inv: "occ_inv G mt e" and t: "0 \<le> t" "t < mt" and c: "c \<in> set cs"
    and nx: "nx = project_x w (pos_x c) (car_speed c) t"
    and px: "px = project_x w (pos_x c) (car_speed c) (t - 1)"
    and x: "x = nx \<or> (nx < px \<and> 1 < car_speed c \<and> nx < x \<and> x < px)
            \<or> (px < nx \<and> (0 \<le> x \<and> x < px \<or> nx < x \<and> x < w))"
  shows "(x, pos_y c) \<notin> set (free_cells (instant_step w cs t e) ! nat t)"
proof -
  have "(x, pos_y c) \<notin> set (free_cells (fold (car_step w t) cs e) ! nat t)"
    using assms by (rule fold_car_step_removes)
  then show ?thesis by (simp add: instant_step_def Let_def)
qed

lemma fold_instant_step_removes:
  assumes inv: "occ_inv G mt e" and ts: "\<forall>u \<in> set ts. 0 \<le> u \<and> u < mt" and t: "t \<in> set ts"
    and c: "c \<in> set cs"
    and nx: "nx = project_x w (pos_x c) (car_speed c) t"
    and px: "px = project_x w (pos_x c) (car_speed c) (t - 1)"
    and x: "x = nx \<or> (nx < px \<and> 1 < car_speed c \<and> nx < x \<and> x < px)
            \<or> (px < nx \<and> (0 \<le> x \<and> x < px \<or> nx < x \<and> x < w))"
  shows "(x, pos_y c) \<notin> set (free_cells (fold (instant_step w cs) ts e) ! nat t)"
  using inv ts t
proof (induction ts arbitrary: e)
  case Nil
  then show ?case by simp
next
  case (Cons u ts)
  have u: "0 \<le> u" "u < mt" using Cons.prems(2) by simp_all
  have inv1: "occ_inv G mt (instant_step w cs u e)"
    using Cons.prems(1) u by (rule instant_step_inv)
  show ?case
  proof (cases "u = t")
    case True
    have "(x, pos_y c) \<notin> set (free_cells (instant_step w cs t e) ! nat t)"
      using Cons.prems(1) u [unfolded True] c nx px x by (rule instant_step_removes)
    then show ?thesis using fold_instant_step_free_subset True by fastforce
  next
    case False
    then have "t \<in> set ts" using Cons.prems(3) by simp
    moreover have "\<forall>u \<in> set ts. 0 \<le> u \<and> u < mt" using Cons.prems(2) by simp
    ultimately show ?thesis using inv1 unfolding fold_simps by (intro Cons.IH)
  qed
qed

text \<open>The cells strictly inside the leftward arc from \<open>px\<close> to \<open>nx\<close> on a ring of
  \<open>w\<close> columns are the cells the two branches of lines 219 to 230 run over.\<close>

lemma arc_cells:
  fixes px nx w k :: int
  assumes px: "0 \<le> px" "px < w" and nx: "0 \<le> nx" "nx < w"
    and k: "1 \<le> k" "k < (px - nx) mod w"
  shows "(nx < px \<and> nx < (px - k) mod w \<and> (px - k) mod w < px)
         \<or> (px < nx \<and> (0 \<le> (px - k) mod w \<and> (px - k) mod w < px
                         \<or> nx < (px - k) mod w \<and> (px - k) mod w < w))"
proof -
  have w: "0 < w" using px by linarith
  consider "nx < px" | "px < nx" | "nx = px" by linarith
  then show ?thesis
  proof cases
    case 1
    then have "(px - nx) mod w = px - nx" using px nx by simp
    then have "0 \<le> px - k" "px - k < w" "nx < px - k" "px - k < px" using k px nx by linarith+
    then show ?thesis using 1 by simp
  next
    case 2
    have "(px - nx) mod w = (px - nx + w) mod w" by simp
    also have "\<dots> = px - nx + w" using 2 px nx by (intro mod_pos_pos_trivial) linarith+
    finally have kk: "k < px - nx + w" using k by simp
    show ?thesis
    proof (cases "k \<le> px")
      case True
      then have "(px - k) mod w = px - k" using px k by simp
      then show ?thesis using 2 True k by simp
    next
      case False
      have "(px - k) mod w = (px - k + w) mod w" by simp
      also have "\<dots> = px - k + w" using False kk px nx by (intro mod_pos_pos_trivial) linarith+
      finally show ?thesis using 2 False kk by simp
    qed
  next
    case 3
    then show ?thesis using k w by simp
  qed
qed

lemma arc_speed:
  assumes x0: "0 \<le> x0" "x0 < w" and sp: "0 \<le> sp" and t: "1 \<le> t"
    and k: "1 < (project_x w x0 sp (t - 1) - project_x w x0 sp t) mod w"
  shows "1 < sp"
proof -
  have w: "0 < w" using x0 by linarith
  have p: "project_x w x0 sp (t - 1) = (x0 - sp * (t - 1)) mod w"
    using x0 sp t by (intro project_x_mod) simp_all
  have n: "project_x w x0 sp t = (x0 - sp * t) mod w"
    using x0 sp t by (intro project_x_mod) simp_all
  have "(project_x w x0 sp (t - 1) - project_x w x0 sp t) mod w
        = ((x0 - sp * (t - 1)) - (x0 - sp * t)) mod w"
    unfolding p n by (simp add: mod_diff_eq)
  also have "\<dots> = sp mod w" by (simp add: algebra_simps)
  finally have "1 < sp mod w" using k by simp
  moreover have "sp mod w \<le> sp" using sp w by (simp add: zmod_le_nonneg_dividend)
  ultimately show ?thesis by linarith
qed

lemma occupancy_target_blocked:
  assumes occ: "occupancy s = Inr e" and mt: "max_time s = Inr mt"
    and c: "c \<in> set (cars s)" and y0: "0 \<le> pos_y c" "pos_y c < num_lanes s"
    and t: "1 \<le> t" "t < mt"
    and nx: "nx = project_x (width s) (pos_x c) (car_speed c) t"
    and px: "px = project_x (width s) (pos_x c) (car_speed c) (t - 1)"
    and x: "x = nx \<or> (nx < px \<and> 1 < car_speed c \<and> nx < x \<and> x < px)
            \<or> (px < nx \<and> (0 \<le> x \<and> x < px \<or> nx < x \<and> x < width s))"
    and xw: "0 \<le> x" "x < width s"
  shows "Blocked (x, pos_y c) t \<in> set (initString e)"
proof -
  define G where "G = generateGridCells (width s) (num_lanes s)"
  from occ obtain mt' e0 e1 where o:
    "max_time s = Inr mt'"
    "block_initial (cars s) \<lparr>initString = [], free_cells = replicate (nat mt') (generateGridCells (width s) (num_lanes s))\<rparr> = Inr e0"
    "e1 = fold (instant_step (width s) (cars s)) (py_range 1 mt') e0"
    "initString e = initString e1 @ [At (car_pos (agent s)) 0 Agent1]"
    by (rule occupancy_Inr)
  have eq: "mt' = mt" using o(1) mt by simp
  have inv0: "occ_inv G mt e0"
    unfolding G_def using o(2) occ_inv_initial [OF distinct_generateGridCells]
    unfolding eq by (rule block_initial_inv)
  have inv1: "occ_inv G mt e1"
    unfolding G_def o(3) eq [symmetric] using o(1,2) by (rule occupancy_loop_inv)
  have ts: "\<forall>u \<in> set (py_range 1 mt). 0 \<le> u \<and> u < mt"
    by (auto simp: set_py_range)
  have tin: "t \<in> set (py_range 1 mt)"
    using t by (simp add: set_py_range)
  have "(x, pos_y c) \<notin> set (free_cells (fold (instant_step (width s) (cars s)) (py_range 1 mt) e0) ! nat t)"
    using inv0 ts tin c nx px x by (rule fold_instant_step_removes)
  then have notfree: "(x, pos_y c) \<notin> set (free_cells e1 ! nat t)"
    by (simp add: o(3) eq)
  have grid: "(x, pos_y c) \<in> set G"
    using xw y0 by (simp add: G_def set_generateGridCells)
  have "{d. Blocked d t \<in> set (initString e1)} = set G - set (free_cells e1 ! nat t)"
    using inv1 t by (simp add: occ_inv_def)
  then have "Blocked (x, pos_y c) t \<in> set (initString e1)"
    using notfree grid by blast
  then show ?thesis by (simp add: o(4))
qed

section \<open>The lateral transition facts\<close>

lemma UpNext_cell_transitions:
  "UpNext c d u \<in> set (cell_transitions n fr t c') \<longleftrightarrow>
     c = c' \<and> u = t \<and>
     d = ((if fst c' = 0 then fst c' else max 0 (fst c' - 1)),
          (if ((if fst c' = 0 then fst c' else max 0 (fst c' - 1)),
               (if snd c' = 0 then snd c' else snd c' - 1)) \<in> set fr
           then (if snd c' = 0 then snd c' else snd c' - 1) else snd c'))"
  by (auto simp: cell_transitions_def Let_def)

lemma DownNext_cell_transitions:
  "DownNext c d u \<in> set (cell_transitions n fr t c') \<longleftrightarrow>
     c = c' \<and> u = t \<and>
     d = ((if fst c' = 0 then fst c' else max 0 (fst c' - 1)),
          (if ((if fst c' = 0 then fst c' else max 0 (fst c' - 1)),
               (if snd c' = n - 1 then snd c' else snd c' + 1)) \<in> set fr
           then (if snd c' = n - 1 then snd c' else snd c' + 1) else snd c'))"
  by (auto simp: cell_transitions_def Let_def)

lemma occupancy_no_UpNext:
  assumes "occupancy s = Inr e"
  shows "UpNext c d u \<notin> set (initString e)" "DownNext c d u \<notin> set (initString e)"
proof -
  from assms obtain fs0 where f: "initString e = fs0 @ [At (car_pos (agent s)) 0 Agent1]"
    "list_all occ_fact fs0"
    by (rule occupancy_facts)
  have "UpNext c d u \<notin> set fs0" "DownNext c d u \<notin> set fs0"
    using f(2) by (auto simp: list_all_iff)
  then show "UpNext c d u \<notin> set (initString e)" "DownNext c d u \<notin> set (initString e)"
    by (simp_all add: f(1))
qed

lemma generateInitString_UpNext:
  assumes gen: "generateInitString s = Inr fs" and occ: "occupancy s = Inr e"
    and mt: "max_time s = Inr mt"
  shows "UpNext c d t \<in> set fs \<longleftrightarrow>
           1 \<le> t \<and> t < mt \<and> c \<in> set (generateGridCells (width s) (num_lanes s)) \<and>
           UpNext c d t \<in> set (cell_transitions (num_lanes s) (free_cells e ! nat t) t c)"
proof -
  from gen obtain mt' e' where g: "max_time s = Inr mt'" "occupancy s = Inr e'"
    "fs = initString e'
          @ concat (map (instant_transitions s (free_cells e')) (py_range 1 mt'))
          @ map (\<lambda>i. NextInstant i (i + 1)) (py_range 0 mt')"
    by (rule generateInitString_Inr)
  have eq: "mt' = mt" "e' = e" using g(1,2) mt occ by simp_all
  have "UpNext c d t \<in> set fs \<longleftrightarrow>
        (\<exists>u \<in> set (py_range 1 mt). UpNext c d t \<in> set (instant_transitions s (free_cells e) u))"
    unfolding g(3) eq using occupancy_no_UpNext(1) [OF occ] by auto
  also have "\<dots> \<longleftrightarrow> (\<exists>u \<in> set (py_range 1 mt). \<exists>c' \<in> set (generateGridCells (width s) (num_lanes s)).
                 UpNext c d t \<in> set (cell_transitions (num_lanes s) (free_cells e ! nat u) u c'))"
    by (simp add: instant_transitions_def)
  also have "\<dots> \<longleftrightarrow> 1 \<le> t \<and> t < mt \<and> c \<in> set (generateGridCells (width s) (num_lanes s)) \<and>
           UpNext c d t \<in> set (cell_transitions (num_lanes s) (free_cells e ! nat t) t c)"
    unfolding UpNext_cell_transitions set_py_range by blast
  finally show ?thesis .
qed

lemma generateInitString_DownNext:
  assumes gen: "generateInitString s = Inr fs" and occ: "occupancy s = Inr e"
    and mt: "max_time s = Inr mt"
  shows "DownNext c d t \<in> set fs \<longleftrightarrow>
           1 \<le> t \<and> t < mt \<and> c \<in> set (generateGridCells (width s) (num_lanes s)) \<and>
           DownNext c d t \<in> set (cell_transitions (num_lanes s) (free_cells e ! nat t) t c)"
proof -
  from gen obtain mt' e' where g: "max_time s = Inr mt'" "occupancy s = Inr e'"
    "fs = initString e'
          @ concat (map (instant_transitions s (free_cells e')) (py_range 1 mt'))
          @ map (\<lambda>i. NextInstant i (i + 1)) (py_range 0 mt')"
    by (rule generateInitString_Inr)
  have eq: "mt' = mt" "e' = e" using g(1,2) mt occ by simp_all
  have "DownNext c d t \<in> set fs \<longleftrightarrow>
        (\<exists>u \<in> set (py_range 1 mt). DownNext c d t \<in> set (instant_transitions s (free_cells e) u))"
    unfolding g(3) eq using occupancy_no_UpNext(2) [OF occ] by auto
  also have "\<dots> \<longleftrightarrow> (\<exists>u \<in> set (py_range 1 mt). \<exists>c' \<in> set (generateGridCells (width s) (num_lanes s)).
                 DownNext c d t \<in> set (cell_transitions (num_lanes s) (free_cells e ! nat u) u c'))"
    by (simp add: instant_transitions_def)
  also have "\<dots> \<longleftrightarrow> 1 \<le> t \<and> t < mt \<and> c \<in> set (generateGridCells (width s) (num_lanes s)) \<and>
           DownNext c d t \<in> set (cell_transitions (num_lanes s) (free_cells e ! nat t) t c)"
    unfolding DownNext_cell_transitions set_py_range by blast
  finally show ?thesis .
qed

lemma lane_generateInitString: "generateInitString lane_snapshot = Inr lane_facts"
  unfolding lane_snapshot_def lane_facts_def by code_simp

lemma lane_occupancy: "occupancy lane_snapshot = Inr lane_enc"
  unfolding lane_snapshot_def lane_enc_def by code_simp

lemma lane_max_time: "max_time lane_snapshot = Inr 2"
  unfolding lane_snapshot_def by code_simp

section \<open>The goal condition\<close>

text \<open>
  Claim C4, as the code has it.  The goal is a disjunction with one disjunct for each
  instant \<open>i\<close> of \<open>range(width)\<close>: a state satisfies it exactly when it holds the fact that
  the agent is at the finish cell at some instant \<open>i\<close> with \<open>0 \<le> i < width\<close>.  One such
  instant is enough.
\<close>

theorem goal_any_instant:
  "goal_holds st (generateGoalString s) \<longleftrightarrow>
     (\<exists>i. 0 \<le> i \<and> i < width s \<and> At (finish_x s, finish_y s) i Agent1 \<in> st)"
  by (auto simp: generateGoalString_def set_py_range)

theorem goal_any_instant_witness:
  "goal_holds {At (0, 0) 1 Agent1} (generateGoalString origin_car_snapshot)
   \<and> goal_holds {At (0, 0) 0 Agent1, At (1, 0) 1 Agent1} (generateGoalString wide_snapshot)"
proof -
  have "goal_holds {At (0, 0) 1 Agent1} (generateGoalString origin_car_snapshot)"
    unfolding goal_any_instant by (simp add: origin_car_snapshot_def)
  moreover have "goal_holds {At (0, 0) 0 Agent1, At (1, 0) 1 Agent1} (generateGoalString wide_snapshot)"
    unfolding goal_any_instant by (simp add: wide_snapshot_def)
  ultimately show ?thesis by simp
qed

lemma wide_max_time: "max_time wide_snapshot = Inr 4"
  unfolding wide_snapshot_def by code_simp

text \<open>The instants of the goal are those below the width, not those below
  \<open>max_time\<close>.  With width 2 and \<open>max_time = 3\<close> the agent standing on the finish cell at
  instant 2 does not satisfy the goal; with width 6 and \<open>max_time = 4\<close> the goal is
  satisfied by the agent standing there at instant 5.\<close>

theorem goal_instants_are_width:
  "max_time origin_car_snapshot = Inr 3
   \<and> \<not> goal_holds {At (finish_x origin_car_snapshot, finish_y origin_car_snapshot) 2 Agent1}
          (generateGoalString origin_car_snapshot)
   \<and> max_time wide_snapshot = Inr 4
   \<and> goal_holds {At (finish_x wide_snapshot, finish_y wide_snapshot) 5 Agent1}
          (generateGoalString wide_snapshot)"
proof -
  have "\<not> goal_holds {At (finish_x origin_car_snapshot, finish_y origin_car_snapshot) 2 Agent1}
          (generateGoalString origin_car_snapshot)"
    by (auto simp: generateGoalString_def set_py_range origin_car_snapshot_def)
  moreover have "goal_holds {At (finish_x wide_snapshot, finish_y wide_snapshot) 5 Agent1}
          (generateGoalString wide_snapshot)"
    by (auto simp: generateGoalString_def set_py_range wide_snapshot_def)
  ultimately show ?thesis
    using origin_car_max_time wide_max_time by simp
qed

section \<open>The declared instants\<close>

text \<open>
  Claim C8 at a concrete snapshot: width 2 and agent speed range \<open>(-3, -1)\<close>, so
  \<open>max_time = 3\<close>.  The declared time objects are 0 and 1, while the emitted facts
  mention the instants 2 and 3.
\<close>

theorem undeclared_instants:
  "generateInitString origin_car_snapshot = Inr origin_car_facts
   \<and> max_time origin_car_snapshot = Inr 3
   \<and> time_objects origin_car_snapshot = [0, 1]
   \<and> Blocked (0, 0) 2 \<in> set origin_car_facts
   \<and> fact_instants (Blocked (0, 0) 2) = [2]
   \<and> NextInstant 2 3 \<in> set origin_car_facts
   \<and> fact_instants (NextInstant 2 3) = [2, 3]
   \<and> 2 \<notin> set (time_objects origin_car_snapshot)
   \<and> 3 \<notin> set (time_objects origin_car_snapshot)"
proof -
  have t: "time_objects origin_car_snapshot = [0, 1]"
    unfolding origin_car_snapshot_def by code_simp
  have "Blocked (0, 0) 2 \<in> set origin_car_facts" "NextInstant 2 3 \<in> set origin_car_facts"
    by (simp_all add: origin_car_facts_def)
  then show ?thesis
    using origin_car_generateInitString origin_car_max_time t by simp
qed

section \<open>The two consumers of the plan file agree\<close>

lemma outcome_step_action:
  "outcome (step_action env_step actions i st) = append_action actions i (stepped st)"
  by (simp add: outcome_def step_action_def append_action_def split: sum.splits)

lemma step_action_None:
  "step_action env_step actions i st = (None, st') \<Longrightarrow>
     append_action actions i (stepped st) = Inr (stepped st')"
  "step_action env_step actions i st = (Some er, st') \<Longrightarrow>
     append_action actions i (stepped st) = Inl er"
  by (auto simp: step_action_def append_action_def split: sum.splits)

lemma outcome_bind:
  assumes "outcome X = Y" and "\<And>st1. outcome (K st1) = K' (stepped st1)"
  shows "outcome (case X of (Some er, st1) \<Rightarrow> (Some er, st1) | (None, st1) \<Rightarrow> K st1)
         = (case Y of Inl er \<Rightarrow> Inl er | Inr seq1 \<Rightarrow> K' seq1)"
proof (cases X)
  case (Pair r st1)
  show ?thesis
  proof (cases r)
    case None
    then have "Y = Inr (stepped st1)" using assms(1) Pair by (simp add: outcome_def)
    then show ?thesis using Pair None assms(2) by simp
  next
    case (Some er)
    then have "Y = Inl er" using assms(1) Pair by (simp add: outcome_def)
    then show ?thesis using Pair Some by (simp add: outcome_def)
  qed
qed

lemma outcome_None: "outcome (None, st) = Inr (stepped st)"
  by (simp add: outcome_def)

lemma outcome_Some: "outcome (Some er, st) = Inl er"
  by (simp add: outcome_def)

lemma outcome_simulate_line:
  fixes st :: "('e, 'a) sim"
  shows "outcome (simulate_line env_step actions line st) = plan_line actions line (stepped st)"
proof (cases line)
  case Nil
  then show ?thesis by (simp add: simulate_line_def plan_line_def outcome_Some)
next
  case (Cons ch rest)
  show ?thesis
  proof (cases "ch = CHR ''(''")
    case False
    then show ?thesis using Cons by (simp add: simulate_line_def plan_line_def outcome_None)
  next
    case True
    show ?thesis
    proof (cases "py_split line")
      case Nil
      then show ?thesis using Cons True
        by (simp add: simulate_line_def plan_line_def outcome_Some)
    next
      case toks: (Cons tok toks)
      show ?thesis
      proof (cases "coords_of (take 2 toks)")
        case (Inl er)
        then show ?thesis using Cons True toks
          by (simp add: simulate_line_def plan_line_def outcome_Some)
      next
        case (Inr coords)
        define action where "action = drop 1 tok"
        have main: "outcome
           (case (if action = ''up'' then
                    (if length (remdups coords) = 1
                     then step_action env_step actions (- 1) st
                     else step_action env_step actions 0 st)
                  else (None, st)) of
              (Some er, st1) \<Rightarrow> (Some er, st1)
            | (None, st1) \<Rightarrow>
                (case (if action = ''down'' then
                         (if length (remdups coords) = 1
                          then step_action env_step actions (- 1) st1
                          else step_action env_step actions 1 st1)
                       else (None, st1)) of
                   (Some er, st2) \<Rightarrow> (Some er, st2)
                 | (None, st2) \<Rightarrow>
                     (if action = ''forward'' then
                        (case forward_speed line of
                           Inl er \<Rightarrow> (Some er, st2)
                         | Inr speed \<Rightarrow> step_action env_step actions speed st2)
                      else (None, st2))))
          = (case (if action = ''up'' then
                     (if length (remdups coords) = 1
                      then append_action actions (- 1) (stepped st)
                      else append_action actions 0 (stepped st))
                   else Inr (stepped st)) of
               Inl er \<Rightarrow> Inl er
             | Inr seq1 \<Rightarrow>
                 (case (if action = ''down'' then
                          (if length (remdups coords) = 1
                           then append_action actions (- 1) seq1
                           else append_action actions 1 seq1)
                        else Inr seq1) of
                    Inl er \<Rightarrow> Inl er
                  | Inr seq2 \<Rightarrow>
                      (if action = ''forward'' then
                         (case forward_speed line of
                            Inl er \<Rightarrow> Inl er
                          | Inr speed \<Rightarrow> append_action actions speed seq2)
                       else Inr seq2)))"
        proof (rule outcome_bind)
          show "outcome (if action = ''up'' then
                    (if length (remdups coords) = 1
                     then step_action env_step actions (- 1) st
                     else step_action env_step actions 0 st)
                  else (None, st))
                = (if action = ''up'' then
                     (if length (remdups coords) = 1
                      then append_action actions (- 1) (stepped st)
                      else append_action actions 0 (stepped st))
                   else Inr (stepped st))"
            by (simp add: outcome_step_action outcome_None)
        next
          fix st1 :: "('e, 'a) sim"
          show "outcome
                (case (if action = ''down'' then
                         (if length (remdups coords) = 1
                          then step_action env_step actions (- 1) st1
                          else step_action env_step actions 1 st1)
                       else (None, st1)) of
                   (Some er, st2) \<Rightarrow> (Some er, st2)
                 | (None, st2) \<Rightarrow>
                     (if action = ''forward'' then
                        (case forward_speed line of
                           Inl er \<Rightarrow> (Some er, st2)
                         | Inr speed \<Rightarrow> step_action env_step actions speed st2)
                      else (None, st2)))
              = (case (if action = ''down'' then
                          (if length (remdups coords) = 1
                           then append_action actions (- 1) (stepped st1)
                           else append_action actions 1 (stepped st1))
                        else Inr (stepped st1)) of
                    Inl er \<Rightarrow> Inl er
                  | Inr seq2 \<Rightarrow>
                      (if action = ''forward'' then
                         (case forward_speed line of
                            Inl er \<Rightarrow> Inl er
                          | Inr speed \<Rightarrow> append_action actions speed seq2)
                       else Inr seq2))"
          proof (rule outcome_bind)
            show "outcome (if action = ''down'' then
                         (if length (remdups coords) = 1
                          then step_action env_step actions (- 1) st1
                          else step_action env_step actions 1 st1)
                       else (None, st1))
                  = (if action = ''down'' then
                          (if length (remdups coords) = 1
                           then append_action actions (- 1) (stepped st1)
                           else append_action actions 1 (stepped st1))
                        else Inr (stepped st1))"
              by (simp add: outcome_step_action outcome_None)
          next
            fix st2 :: "('e, 'a) sim"
            show "outcome (if action = ''forward'' then
                        (case forward_speed line of
                           Inl er \<Rightarrow> (Some er, st2)
                         | Inr speed \<Rightarrow> step_action env_step actions speed st2)
                      else (None, st2))
                  = (if action = ''forward'' then
                         (case forward_speed line of
                            Inl er \<Rightarrow> Inl er
                          | Inr speed \<Rightarrow> append_action actions speed (stepped st2))
                       else Inr (stepped st2))"
              by (simp add: outcome_step_action outcome_None outcome_Some split: sum.splits)
          qed
        qed
        have l: "simulate_line env_step actions line st =
           (case (if action = ''up'' then
                    (if length (remdups coords) = 1
                     then step_action env_step actions (- 1) st
                     else step_action env_step actions 0 st)
                  else (None, st)) of
              (Some er, st1) \<Rightarrow> (Some er, st1)
            | (None, st1) \<Rightarrow>
                (case (if action = ''down'' then
                         (if length (remdups coords) = 1
                          then step_action env_step actions (- 1) st1
                          else step_action env_step actions 1 st1)
                       else (None, st1)) of
                   (Some er, st2) \<Rightarrow> (Some er, st2)
                 | (None, st2) \<Rightarrow>
                     (if action = ''forward'' then
                        (case forward_speed line of
                           Inl er \<Rightarrow> (Some er, st2)
                         | Inr speed \<Rightarrow> step_action env_step actions speed st2)
                      else (None, st2))))"
          unfolding simulate_line_def action_def using Cons True toks Inr
          by (simp add: Let_def del: One_nat_def split del: if_split)
        have r: "plan_line actions line (stepped st) =
            (case (if action = ''up'' then
                     (if length (remdups coords) = 1
                      then append_action actions (- 1) (stepped st)
                      else append_action actions 0 (stepped st))
                   else Inr (stepped st)) of
               Inl er \<Rightarrow> Inl er
             | Inr seq1 \<Rightarrow>
                 (case (if action = ''down'' then
                          (if length (remdups coords) = 1
                           then append_action actions (- 1) seq1
                           else append_action actions 1 seq1)
                        else Inr seq1) of
                    Inl er \<Rightarrow> Inl er
                  | Inr seq2 \<Rightarrow>
                      (if action = ''forward'' then
                         (case forward_speed line of
                            Inl er \<Rightarrow> Inl er
                          | Inr speed \<Rightarrow> append_action actions speed seq2)
                       else Inr seq2)))"
          unfolding plan_line_def action_def using Cons True toks Inr
          by (simp add: Let_def del: One_nat_def split del: if_split)
        show ?thesis unfolding l r by (rule main)
      qed
    qed
  qed
qed

lemma outcome_simulate_lines:
  fixes st :: "('e, 'a) sim"
  shows "outcome (simulate_lines env_step actions plan_file st)
         = plan_lines actions plan_file (stepped st)"
proof (induction plan_file arbitrary: st)
  case Nil
  show ?case by (simp add: outcome_None)
next
  case (Cons line rest)
  obtain r st' where sl: "simulate_line env_step actions line st = (r, st')"
    by (cases "simulate_line env_step actions line st")
  have o: "outcome (r, st') = plan_line actions line (stepped st)"
    using outcome_simulate_line [of env_step actions line st] sl by simp
  show ?case
  proof (cases r)
    case None
    then have "plan_line actions line (stepped st) = Inr (stepped st')"
      using o by (simp add: outcome_None)
    then show ?thesis using sl None Cons.IH [of st'] by simp
  next
    case (Some er)
    then have "plan_line actions line (stepped st) = Inl er"
      using o by (simp add: outcome_Some)
    then show ?thesis using sl Some by (simp add: outcome_Some)
  qed
qed

text \<open>
  Claim C10.  For every plan file, list of environment actions, environment and step
  function, \<open>generatePlan\<close> raises exactly when \<open>simulateSolution\<close> does, with the same
  exception, and otherwise returns the list of the actions that \<open>simulateSolution\<close> hands
  to \<open>env.step\<close>, in the same order.
\<close>

theorem translators_agree:
  fixes env0 :: 'e and actions :: "'a list"
  shows "generatePlan actions plan_file =
         (case simulateSolution env_step actions env0 plan_file of
            (None, st) \<Rightarrow> Inr (stepped st)
          | (Some er, st) \<Rightarrow> Inl er)"
  using outcome_simulate_lines [of env_step actions plan_file "\<lparr>env = env0, stepped = []\<rparr>"]
  by (simp add: generatePlan_def simulateSolution_def outcome_def)

theorem translators_agree_witness:
  "generatePlan env_actions sample_plan = Inr [''up'', ''forward[-2]'']
   \<and> simulateSolution (\<lambda>a n. Suc n) env_actions (0::nat) sample_plan
       = (None, \<lparr>env = 2, stepped = [''up'', ''forward[-2]'']\<rparr>)"
proof -
  have "simulateSolution (\<lambda>a n. Suc n) env_actions (0::nat) sample_plan
       = (None, \<lparr>env = 2, stepped = [''up'', ''forward[-2]'']\<rparr>)"
    unfolding env_actions_def sample_plan_def by code_simp
  then show ?thesis
    using translators_agree [of env_actions sample_plan "\<lambda>a n. Suc n" "0::nat"] by simp
qed

section \<open>The projected cell of an obstacle\<close>

text \<open>
  Claim C6.  Take a car whose column \<open>x0\<close> satisfies \<open>0 \<le> x0 < width\<close>, with the speed
  magnitude \<open>abs(car.speed_range[0])\<close> of line 209, and an instant \<open>t \<ge> 0\<close>.  The column
  the encoder computes for it at \<open>t\<close> is \<open>(x0 - speed * t) mod width\<close>; it lies in the
  half-open range from 0 to the width; at instant 0 it is \<open>x0\<close>.  When the car is one of the
  snapshot's, stands in a lane of the grid, and \<open>t\<close> is an instant of
  \<open>range(1, max_time)\<close>, the output holds the \<open>blocked\<close> fact at \<open>t\<close> of the cell with that
  column and the car's own lane.
\<close>

theorem obstacle_projection:
  assumes x0: "0 \<le> pos_x c" "pos_x c < width s" and t: "0 \<le> t"
  shows "project_x (width s) (pos_x c) (car_speed c) t
           = (pos_x c - \<bar>fst (speed_range c)\<bar> * t) mod width s
       \<and> 0 \<le> (pos_x c - \<bar>fst (speed_range c)\<bar> * t) mod width s
       \<and> (pos_x c - \<bar>fst (speed_range c)\<bar> * t) mod width s < width s
       \<and> project_x (width s) (pos_x c) (car_speed c) 0 = pos_x c
       \<and> (c \<in> set (cars s) \<and> 0 \<le> pos_y c \<and> pos_y c < num_lanes s
            \<and> generateInitString s = Inr fs \<and> max_time s = Inr mt \<and> 1 \<le> t \<and> t < mt
          \<longrightarrow> Blocked ((pos_x c - \<bar>fst (speed_range c)\<bar> * t) mod width s, pos_y c) t \<in> set fs)"
proof -
  define nx where "nx = project_x (width s) (pos_x c) (car_speed c) t"
  define px where "px = project_x (width s) (pos_x c) (car_speed c) (t - 1)"
  have w: "0 < width s" using x0 by linarith
  have sp: "0 \<le> car_speed c" by (simp add: car_speed_def)
  have eq: "nx = (pos_x c - \<bar>fst (speed_range c)\<bar> * t) mod width s"
    unfolding nx_def using project_x_mod [OF x0 sp t] by (simp add: car_speed_def)
  have r: "0 \<le> nx" "nx < width s" using w by (simp_all add: eq)
  have z: "project_x (width s) (pos_x c) (car_speed c) 0 = pos_x c"
    using x0 by (simp add: project_x_def)
  have b: "Blocked (nx, pos_y c) t \<in> set fs"
    if c: "c \<in> set (cars s)" and y0: "0 \<le> pos_y c" "pos_y c < num_lanes s"
      and gen: "generateInitString s = Inr fs" and mt: "max_time s = Inr mt"
      and t1: "1 \<le> t" "t < mt"
  proof -
    from gen obtain e where occ: "occupancy s = Inr e"
      by (rule generateInitString_Inr)
    have x: "nx = nx \<or> (nx < px \<and> 1 < car_speed c \<and> nx < nx \<and> nx < px)
            \<or> (px < nx \<and> (0 \<le> nx \<and> nx < px \<or> nx < nx \<and> nx < width s))"
      by simp
    have "Blocked (nx, pos_y c) t \<in> set (initString e)"
      using occ mt c y0 t1 nx_def px_def x r by (rule occupancy_target_blocked)
    then show ?thesis using generateInitString_Blocked [OF gen occ] by simp
  qed
  show ?thesis
  proof (intro conjI impI)
    show "project_x (width s) (pos_x c) (car_speed c) t
           = (pos_x c - \<bar>fst (speed_range c)\<bar> * t) mod width s"
      using eq by (simp add: nx_def)
    show "0 \<le> (pos_x c - \<bar>fst (speed_range c)\<bar> * t) mod width s"
      using r(1) by (simp add: eq)
    show "(pos_x c - \<bar>fst (speed_range c)\<bar> * t) mod width s < width s"
      using r(2) by (simp add: eq)
    show "project_x (width s) (pos_x c) (car_speed c) 0 = pos_x c"
      by (rule z)
  next
    assume a: "c \<in> set (cars s) \<and> 0 \<le> pos_y c \<and> pos_y c < num_lanes s
            \<and> generateInitString s = Inr fs \<and> max_time s = Inr mt \<and> 1 \<le> t \<and> t < mt"
    then have "Blocked (nx, pos_y c) t \<in> set fs" by (intro b) simp_all
    then show "Blocked ((pos_x c - \<bar>fst (speed_range c)\<bar> * t) mod width s, pos_y c) t \<in> set fs"
      by (simp add: eq)
  qed
qed

theorem obstacle_projection_witness:
  "(0::int) \<le> pos_x (hd (cars lane_snapshot))
   \<and> pos_x (hd (cars lane_snapshot)) < width lane_snapshot
   \<and> hd (cars lane_snapshot) \<in> set (cars lane_snapshot)
   \<and> car_pos (hd (cars lane_snapshot)) = (2, 0)
   \<and> speed_range (hd (cars lane_snapshot)) = (- 1, - 1)
   \<and> generateInitString lane_snapshot = Inr lane_facts
   \<and> max_time lane_snapshot = Inr 2
   \<and> project_x (width lane_snapshot) 2 (car_speed (hd (cars lane_snapshot))) 1 = 1
   \<and> Blocked (1, 0) 1 \<in> set lane_facts"
proof -
  have c: "pos_x (hd (cars lane_snapshot)) = 2" "pos_y (hd (cars lane_snapshot)) = 0"
    "speed_range (hd (cars lane_snapshot)) = (- 1, - 1)"
    "width lane_snapshot = 3" "num_lanes lane_snapshot = 2"
    "hd (cars lane_snapshot) \<in> set (cars lane_snapshot)"
    by (simp_all add: lane_snapshot_def)
  have x0: "0 \<le> pos_x (hd (cars lane_snapshot))"
    "pos_x (hd (cars lane_snapshot)) < width lane_snapshot"
    by (simp_all add: c)
  have t: "(0::int) \<le> 1" by simp
  note th = obstacle_projection [OF x0 t, of lane_facts 2]
  have "project_x (width lane_snapshot) 2 (car_speed (hd (cars lane_snapshot))) 1 = 1"
    using th by (simp add: c)
  moreover have "Blocked (1, 0) 1 \<in> set lane_facts"
    using th lane_generateInitString lane_max_time by (simp add: c)
  ultimately show ?thesis
    using lane_generateInitString lane_max_time by (simp add: c car_pos_def)
qed

section \<open>The sweep of a fast obstacle\<close>

lemma sweep_Blocked_cells:
  assumes "Blocked d u \<in> set (initString (sweep t y xs e))"
  shows "Blocked d u \<in> set (initString e) \<or> (u = t \<and> snd d = y \<and> fst d \<in> set xs)"
  using assms unfolding sweep_def
proof (induction xs arbitrary: e)
  case Nil
  then show ?case by simp
next
  case (Cons x xs)
  then have "Blocked d u \<in> set (initString (claim_cell t [Blocked (x, y) t] (x, y) e))
             \<or> (u = t \<and> snd d = y \<and> fst d \<in> set xs)"
    by simp
  then show ?case
  proof
    assume "Blocked d u \<in> set (initString (claim_cell t [Blocked (x, y) t] (x, y) e))"
    then have "Blocked d u \<in> set (initString e) \<or> Blocked d u \<in> set [Blocked (x, y) t]"
      by (rule claim_cell_Blocked)
    then show ?thesis by auto
  next
    assume "u = t \<and> snd d = y \<and> fst d \<in> set xs"
    then show ?thesis by simp
  qed
qed

lemma car_step_Blocked_cells:
  assumes b: "Blocked d u \<in> set (initString (car_step w t c e))"
    and nx: "nx = project_x w (pos_x c) (car_speed c) t"
    and px: "px = project_x w (pos_x c) (car_speed c) (t - 1)"
  shows "Blocked d u \<in> set (initString e)
         \<or> (u = t \<and> snd d = pos_y c
             \<and> (fst d = nx \<or> (nx < px \<and> 1 < car_speed c \<and> nx < fst d \<and> fst d < px)
                 \<or> (px < nx \<and> (0 \<le> fst d \<and> fst d < px \<or> nx < fst d \<and> fst d < w))))"
proof -
  define e1 where "e1 = claim_cell t [At (nx, pos_y c) t (CarObj (car_id c)), Blocked (nx, pos_y c) t]
                          (nx, pos_y c) e"
  have step: "car_step w t c e =
     (if nx < px \<and> car_speed c > 1 then sweep t (pos_y c) (py_range (nx + 1) px) e1
      else if nx > px then sweep t (pos_y c) (py_range 0 px @ py_range (nx + 1) w) e1
      else e1)"
    by (simp add: car_step_def Let_def e1_def nx px)
  have first: "Blocked d u \<in> set (initString e) \<or> (u = t \<and> snd d = pos_y c \<and> fst d = nx)"
    if "Blocked d u \<in> set (initString e1)"
  proof -
    have "Blocked d u \<in> set (initString e)
          \<or> Blocked d u \<in> set [At (nx, pos_y c) t (CarObj (car_id c)), Blocked (nx, pos_y c) t]"
      using that unfolding e1_def by (rule claim_cell_Blocked)
    then show ?thesis by auto
  qed
  consider (a) "nx < px \<and> car_speed c > 1" | (b) "\<not> (nx < px \<and> car_speed c > 1)" "nx > px"
    | (c) "\<not> (nx < px \<and> car_speed c > 1)" "\<not> nx > px"
    by blast
  then show ?thesis
  proof cases
    case a
    have cs: "car_step w t c e = sweep t (pos_y c) (py_range (nx + 1) px) e1"
      using a step by simp
    have "Blocked d u \<in> set (initString (sweep t (pos_y c) (py_range (nx + 1) px) e1))"
      using b unfolding cs .
    then have "Blocked d u \<in> set (initString e1)
               \<or> (u = t \<and> snd d = pos_y c \<and> fst d \<in> set (py_range (nx + 1) px))"
      by (rule sweep_Blocked_cells)
    then show ?thesis using first a by (auto simp: set_py_range)
  next
    case b
    have cs: "car_step w t c e = sweep t (pos_y c) (py_range 0 px @ py_range (nx + 1) w) e1"
      using b step by auto
    have "Blocked d u \<in> set (initString (sweep t (pos_y c) (py_range 0 px @ py_range (nx + 1) w) e1))"
      using assms(1) unfolding cs .
    then have "Blocked d u \<in> set (initString e1)
               \<or> (u = t \<and> snd d = pos_y c \<and> fst d \<in> set (py_range 0 px @ py_range (nx + 1) w))"
      by (rule sweep_Blocked_cells)
    then show ?thesis using first b by (auto simp: set_py_range)
  next
    case c
    have cs: "car_step w t c e = e1"
      using c step by auto
    have "Blocked d u \<in> set (initString e1)" using assms(1) unfolding cs .
    then show ?thesis using first by blast
  qed
qed

lemma car_step_leaves_previous:
  assumes b: "Blocked (px, pos_y c) t \<in> set (initString (car_step w t c e))"
    and nx: "nx = project_x w (pos_x c) (car_speed c) t"
    and px: "px = project_x w (pos_x c) (car_speed c) (t - 1)"
    and ne: "px \<noteq> nx"
  shows "Blocked (px, pos_y c) t \<in> set (initString e)"
proof -
  have "Blocked (px, pos_y c) t \<in> set (initString e)
         \<or> (t = t \<and> snd (px, pos_y c) = pos_y c
             \<and> (fst (px, pos_y c) = nx
                 \<or> (nx < px \<and> 1 < car_speed c \<and> nx < fst (px, pos_y c) \<and> fst (px, pos_y c) < px)
                 \<or> (px < nx \<and> (0 \<le> fst (px, pos_y c) \<and> fst (px, pos_y c) < px
                                 \<or> nx < fst (px, pos_y c) \<and> fst (px, pos_y c) < w))))"
    using b nx px by (rule car_step_Blocked_cells)
  then show ?thesis using ne by auto
qed

lemma arc_length:
  assumes x0: "0 \<le> x0" "x0 < w" and sp: "0 \<le> sp" "sp < w" and t: "1 \<le> t"
  shows "(project_x w x0 sp (t - 1) - project_x w x0 sp t) mod w = sp"
proof -
  have p: "project_x w x0 sp (t - 1) = (x0 - sp * (t - 1)) mod w"
    using x0 sp(1) t by (intro project_x_mod) simp_all
  have n: "project_x w x0 sp t = (x0 - sp * t) mod w"
    using x0 sp(1) t by (intro project_x_mod) simp_all
  have "(project_x w x0 sp (t - 1) - project_x w x0 sp t) mod w
        = ((x0 - sp * (t - 1)) - (x0 - sp * t)) mod w"
    unfolding p n by (simp add: mod_diff_eq)
  also have "\<dots> = sp mod w" by (simp add: algebra_simps)
  also have "\<dots> = sp" using sp by simp
  finally show ?thesis .
qed

text \<open>
  Claim C2, as the code has it.  For a car of the snapshot standing on a grid cell and an
  instant \<open>t\<close> of \<open>range(1, max_time)\<close>, let \<open>px\<close> and \<open>nx\<close> be its projected columns at
  \<open>t - 1\<close> and at \<open>t\<close>.  Then its cell at \<open>t\<close> and every cell strictly inside the leftward
  arc from \<open>px\<close> to \<open>nx\<close> (the columns \<open>(px - k) mod width\<close> for \<open>0 < k < (px - nx) mod
  width\<close>, so across the left edge when the car wraps) has a \<open>blocked\<close> fact at \<open>t\<close>.
  For a speed magnitude below the width the arc has the length of the speed, so these are
  the cells the car passes through.  When the car moved (\<open>px \<noteq> nx\<close>), its own step of
  the loop adds no \<open>blocked\<close> fact at \<open>t\<close> for the cell at \<open>px\<close> that it left.
\<close>

theorem sweep_blocked:
  assumes gen: "generateInitString s = Inr fs" and mt: "max_time s = Inr mt"
    and c: "c \<in> set (cars s)"
    and x0: "0 \<le> pos_x c" "pos_x c < width s" and y0: "0 \<le> pos_y c" "pos_y c < num_lanes s"
    and t: "1 \<le> t" "t < mt"
    and px: "px = project_x (width s) (pos_x c) (car_speed c) (t - 1)"
    and nx: "nx = project_x (width s) (pos_x c) (car_speed c) t"
  shows "Blocked (nx, pos_y c) t \<in> set fs
         \<and> (\<forall>k. 1 \<le> k \<and> k < (px - nx) mod width s
                \<longrightarrow> Blocked ((px - k) mod width s, pos_y c) t \<in> set fs)
         \<and> (car_speed c < width s \<longrightarrow> (px - nx) mod width s = car_speed c)
         \<and> (px \<noteq> nx \<longrightarrow>
              (\<forall>e. Blocked (px, pos_y c) t \<in> set (initString (car_step (width s) t c e))
                   \<longrightarrow> Blocked (px, pos_y c) t \<in> set (initString e)))"
proof -
  from gen obtain e where occ: "occupancy s = Inr e"
    by (rule generateInitString_Inr)
  have w: "0 < width s" using x0 by linarith
  have sp: "0 \<le> car_speed c" by (simp add: car_speed_def)
  have tn: "0 \<le> t" "0 \<le> t - 1" using t by simp_all
  have nxr: "0 \<le> nx" "nx < width s"
    using project_x_wraps [OF x0 sp tn(1)] by (simp_all add: nx)
  have pxr: "0 \<le> px" "px < width s"
    using project_x_wraps [OF x0 sp tn(2)] by (simp_all add: px)
  have blocked: "Blocked (x, pos_y c) t \<in> set fs"
    if "x = nx \<or> (nx < px \<and> 1 < car_speed c \<and> nx < x \<and> x < px)
            \<or> (px < nx \<and> (0 \<le> x \<and> x < px \<or> nx < x \<and> x < width s))"
      and "0 \<le> x" "x < width s" for x
  proof -
    have "Blocked (x, pos_y c) t \<in> set (initString e)"
      using occ mt c y0 t nx px that by (rule occupancy_target_blocked)
    then show ?thesis using generateInitString_Blocked [OF gen occ] by simp
  qed
  have "nx = nx \<or> (nx < px \<and> 1 < car_speed c \<and> nx < nx \<and> nx < px)
            \<or> (px < nx \<and> (0 \<le> nx \<and> nx < px \<or> nx < nx \<and> nx < width s))"
    by simp
  then have first: "Blocked (nx, pos_y c) t \<in> set fs"
    using nxr by (rule blocked)
  have rest: "Blocked ((px - k) mod width s, pos_y c) t \<in> set fs"
    if k: "1 \<le> k" "k < (px - nx) mod width s" for k
  proof -
    have "1 < (px - nx) mod width s" using k by linarith
    then have "1 < (project_x (width s) (pos_x c) (car_speed c) (t - 1)
                    - project_x (width s) (pos_x c) (car_speed c) t) mod width s"
      by (simp add: px nx)
    with x0 sp t(1) have fast: "1 < car_speed c"
      by (rule arc_speed)
    have "(nx < px \<and> nx < (px - k) mod width s \<and> (px - k) mod width s < px)
         \<or> (px < nx \<and> (0 \<le> (px - k) mod width s \<and> (px - k) mod width s < px
                         \<or> nx < (px - k) mod width s \<and> (px - k) mod width s < width s))"
      using pxr nxr k by (rule arc_cells)
    then have d: "(px - k) mod width s = nx
        \<or> (nx < px \<and> 1 < car_speed c \<and> nx < (px - k) mod width s \<and> (px - k) mod width s < px)
        \<or> (px < nx \<and> (0 \<le> (px - k) mod width s \<and> (px - k) mod width s < px
                         \<or> nx < (px - k) mod width s \<and> (px - k) mod width s < width s))"
      using fast by blast
    have m: "0 \<le> (px - k) mod width s" "(px - k) mod width s < width s"
      using w by simp_all
    show ?thesis using d m by (rule blocked)
  qed
  have len: "(px - nx) mod width s = car_speed c" if "car_speed c < width s"
    unfolding px nx using x0 sp that t(1) by (rule arc_length)
  have leaves: "Blocked (px, pos_y c) t \<in> set (initString e)"
    if "px \<noteq> nx" "Blocked (px, pos_y c) t \<in> set (initString (car_step (width s) t c e))" for e
    using that(2) nx px that(1) by (rule car_step_leaves_previous)
  show ?thesis using first rest len leaves by blast
qed

lemma sweep_generateInitString: "generateInitString sweep_snapshot = Inr sweep_facts"
  unfolding sweep_snapshot_def sweep_facts_def by code_simp

lemma sweep_max_time: "max_time sweep_snapshot = Inr 2"
  unfolding sweep_snapshot_def by code_simp

lemma sweep_car:
  "hd (cars sweep_snapshot) \<in> set (cars sweep_snapshot)"
  "pos_x (hd (cars sweep_snapshot)) = 4" "pos_y (hd (cars sweep_snapshot)) = 0"
  "car_speed (hd (cars sweep_snapshot)) = 3"
  "width sweep_snapshot = 5" "num_lanes sweep_snapshot = 1"
  by (simp_all add: sweep_snapshot_def car_speed_def)

lemma sweep_projections:
  "project_x 5 4 3 (1 - 1) = 4" "project_x 5 4 3 1 = 1"
  by (simp_all add: project_x_def)

theorem sweep_blocked_witness:
  "generateInitString sweep_snapshot = Inr sweep_facts
   \<and> max_time sweep_snapshot = Inr 2
   \<and> hd (cars sweep_snapshot) \<in> set (cars sweep_snapshot)
   \<and> car_pos (hd (cars sweep_snapshot)) = (4, 0) \<and> car_speed (hd (cars sweep_snapshot)) = 3
   \<and> project_x 5 4 3 (1 - 1) = 4 \<and> project_x 5 4 3 1 = 1
   \<and> Blocked (1, 0) 1 \<in> set sweep_facts
   \<and> Blocked (2, 0) 1 \<in> set sweep_facts
   \<and> Blocked (3, 0) 1 \<in> set sweep_facts
   \<and> (4 - 1) mod width sweep_snapshot = car_speed (hd (cars sweep_snapshot))"
proof -
  have a: "(0::int) \<le> pos_x (hd (cars sweep_snapshot))"
    "pos_x (hd (cars sweep_snapshot)) < width sweep_snapshot"
    "0 \<le> pos_y (hd (cars sweep_snapshot))"
    "pos_y (hd (cars sweep_snapshot)) < num_lanes sweep_snapshot"
    by (simp_all add: sweep_car)
  have t: "(1::int) \<le> 1" "(1::int) < 2" by simp_all
  have px: "4 = project_x (width sweep_snapshot) (pos_x (hd (cars sweep_snapshot)))
                  (car_speed (hd (cars sweep_snapshot))) (1 - 1)"
    and nx: "1 = project_x (width sweep_snapshot) (pos_x (hd (cars sweep_snapshot)))
                  (car_speed (hd (cars sweep_snapshot))) 1"
    using sweep_projections by (simp_all add: sweep_car)
  note th = sweep_blocked [OF sweep_generateInitString sweep_max_time sweep_car(1) a t px nx]
  have "Blocked ((4 - 1) mod width sweep_snapshot, pos_y (hd (cars sweep_snapshot))) 1
          \<in> set sweep_facts"
    using th [THEN conjunct2, THEN conjunct1, rule_format, of 1] by (simp add: sweep_car)
  moreover have "Blocked ((4 - 2) mod width sweep_snapshot, pos_y (hd (cars sweep_snapshot))) 1
          \<in> set sweep_facts"
    using th [THEN conjunct2, THEN conjunct1, rule_format, of 2] by (simp add: sweep_car)
  moreover have "Blocked (1, pos_y (hd (cars sweep_snapshot))) 1 \<in> set sweep_facts"
    using th by simp
  moreover have "(4 - 1) mod width sweep_snapshot = car_speed (hd (cars sweep_snapshot))"
    using th by (simp add: sweep_car)
  ultimately show ?thesis
    using sweep_generateInitString sweep_max_time sweep_projections
    by (simp add: sweep_car car_pos_def)
qed

text \<open>A car of speed 3 that goes from column 4 to column 1 in one instant: the cells 1, 2
  and 3 are blocked at that instant, the cell 4 it left is not.\<close>

theorem sweep_leaves_previous_cell:
  "generateInitString sweep_snapshot = Inr sweep_facts
   \<and> car_pos (hd (cars sweep_snapshot)) = (4, 0) \<and> car_speed (hd (cars sweep_snapshot)) = 3
   \<and> project_x 5 4 3 (1 - 1) = 4 \<and> project_x 5 4 3 1 = 1
   \<and> Blocked (4, 0) 1 \<notin> set sweep_facts"
proof -
  have "Blocked (4, 0) 1 \<notin> set sweep_facts"
    by (simp add: sweep_facts_def)
  then show ?thesis
    using sweep_generateInitString sweep_projections by (simp add: sweep_car car_pos_def)
qed

section \<open>The lateral successors\<close>

text \<open>
  Claim C3, as the code has it.  For every grid cell \<open>(x, y)\<close> and every instant \<open>t\<close> of
  \<open>range(1, max_time)\<close> the output holds exactly one \<open>up_next\<close> fact from \<open>(x, y)\<close> at
  \<open>t\<close>: to the candidate \<open>(max(0, x - 1), max(0, y - 1))\<close> when that cell is in
  \<open>free_cells[t]\<close>, and otherwise to the same-lane cell \<open>(max(0, x - 1), y)\<close>; and exactly
  one \<open>down_next\<close> fact, the same with the lane \<open>min(num_lanes - 1, y + 1)\<close>.  A candidate
  without a \<open>blocked\<close> fact at \<open>t\<close> is in \<open>free_cells[t]\<close>; a candidate with a \<open>blocked\<close>
  fact at \<open>t\<close> is not, unless it is the origin \<open>(0, 0)\<close>.  So a lateral move into a blocked
  cell other than the origin degrades to the same-lane step.
\<close>

theorem lateral_successors:
  assumes gen: "generateInitString s = Inr fs" and occ: "occupancy s = Inr e"
    and mt: "max_time s = Inr mt"
    and cell: "0 \<le> x" "x < width s" "0 \<le> y" "y < num_lanes s"
    and t: "1 \<le> t" "t < mt"
  shows "(UpNext (x, y) d t \<in> set fs \<longleftrightarrow>
            d = (max 0 (x - 1),
                 if (max 0 (x - 1), max 0 (y - 1)) \<in> set (free_cells e ! nat t)
                 then max 0 (y - 1) else y))
       \<and> (DownNext (x, y) d t \<in> set fs \<longleftrightarrow>
            d = (max 0 (x - 1),
                 if (max 0 (x - 1), min (num_lanes s - 1) (y + 1)) \<in> set (free_cells e ! nat t)
                 then min (num_lanes s - 1) (y + 1) else y))
       \<and> (Blocked (max 0 (x - 1), max 0 (y - 1)) t \<notin> set fs
            \<longrightarrow> (max 0 (x - 1), max 0 (y - 1)) \<in> set (free_cells e ! nat t))
       \<and> (Blocked (max 0 (x - 1), max 0 (y - 1)) t \<in> set fs
            \<and> (max 0 (x - 1), max 0 (y - 1)) \<noteq> (0, 0)
            \<longrightarrow> (max 0 (x - 1), max 0 (y - 1)) \<notin> set (free_cells e ! nat t))
       \<and> (Blocked (max 0 (x - 1), min (num_lanes s - 1) (y + 1)) t \<notin> set fs
            \<longrightarrow> (max 0 (x - 1), min (num_lanes s - 1) (y + 1)) \<in> set (free_cells e ! nat t))
       \<and> (Blocked (max 0 (x - 1), min (num_lanes s - 1) (y + 1)) t \<in> set fs
            \<and> (max 0 (x - 1), min (num_lanes s - 1) (y + 1)) \<noteq> (0, 0)
            \<longrightarrow> (max 0 (x - 1), min (num_lanes s - 1) (y + 1)) \<notin> set (free_cells e ! nat t))"
proof -
  define n where "n = num_lanes s"
  define fr where "fr = free_cells e ! nat t"
  define nx where "nx = max 0 (x - 1)"
  define uy where "uy = max 0 (y - 1)"
  define dy where "dy = min (n - 1) (y + 1)"
  have grid: "(x, y) \<in> set (generateGridCells (width s) (num_lanes s))"
    using cell by (simp add: set_generateGridCells)
  have nx': "(if x = 0 then x else max 0 (x - 1)) = nx"
    using cell(1) by (simp add: nx_def)
  have uy': "(if y = 0 then y else y - 1) = uy"
    using cell(3) by (simp add: uy_def)
  have dy': "(if y = n - 1 then y else y + 1) = dy"
    using cell(4) by (simp add: dy_def n_def)
  have "UpNext (x, y) d t \<in> set (cell_transitions n fr t (x, y)) \<longleftrightarrow>
          d = (nx, if (nx, uy) \<in> set fr then uy else y)"
    unfolding UpNext_cell_transitions fst_conv snd_conv nx' uy' by simp
  then have up: "UpNext (x, y) d t \<in> set fs \<longleftrightarrow> d = (nx, if (nx, uy) \<in> set fr then uy else y)"
    unfolding generateInitString_UpNext [OF gen occ mt] n_def fr_def
    using grid t by simp
  have "DownNext (x, y) d t \<in> set (cell_transitions n fr t (x, y)) \<longleftrightarrow>
          d = (nx, if (nx, dy) \<in> set fr then dy else y)"
    unfolding DownNext_cell_transitions fst_conv snd_conv nx' dy' by simp
  then have down: "DownNext (x, y) d t \<in> set fs \<longleftrightarrow> d = (nx, if (nx, dy) \<in> set fr then dy else y)"
    unfolding generateInitString_DownNext [OF gen occ mt] n_def fr_def
    using grid t by simp
  have lanes: "0 < num_lanes s" using cell(3,4) by linarith
  have t0: "0 \<le> t" using t(1) by simp
  have cover: "set fr \<union> set (blocked_cells (initString e) t)
                 = set (generateGridCells (width s) (num_lanes s))"
    and disj: "set fr \<inter> set (blocked_cells (initString e) t) \<subseteq> {(0, 0)}"
    using occupancy_cover [OF occ mt t0 t(2) lanes] by (simp_all add: fr_def)
  have bl: "c \<in> set (blocked_cells (initString e) t) \<longleftrightarrow> Blocked c t \<in> set fs" for c
    using generateInitString_Blocked [OF gen occ] by (simp add: blocked_cells_iff)
  have gu: "(nx, uy) \<in> set (generateGridCells (width s) (num_lanes s))"
    using cell by (simp add: set_generateGridCells nx_def uy_def)
  have gd: "(nx, dy) \<in> set (generateGridCells (width s) (num_lanes s))"
    using cell by (simp add: set_generateGridCells nx_def dy_def n_def)
  have free_if: "c \<in> set fr"
    if "c \<in> set (generateGridCells (width s) (num_lanes s))" "Blocked c t \<notin> set fs" for c
    using that cover bl by blast
  have not_free: "c \<notin> set fr" if "Blocked c t \<in> set fs" "c \<noteq> (0, 0)" for c
    using that disj bl by blast
  have u1: "Blocked (nx, uy) t \<notin> set fs \<longrightarrow> (nx, uy) \<in> set fr"
    using free_if [OF gu] by blast
  have u2: "Blocked (nx, uy) t \<in> set fs \<and> (nx, uy) \<noteq> (0, 0) \<longrightarrow> (nx, uy) \<notin> set fr"
    using not_free by blast
  have d1: "Blocked (nx, dy) t \<notin> set fs \<longrightarrow> (nx, dy) \<in> set fr"
    using free_if [OF gd] by blast
  have d2: "Blocked (nx, dy) t \<in> set fs \<and> (nx, dy) \<noteq> (0, 0) \<longrightarrow> (nx, dy) \<notin> set fr"
    using not_free by blast
  show ?thesis
    using up down u1 u2 d1 d2 unfolding nx_def uy_def dy_def n_def fr_def by (intro conjI)
qed

theorem lateral_successors_witness:
  "generateInitString lane_snapshot = Inr lane_facts
   \<and> occupancy lane_snapshot = Inr lane_enc
   \<and> max_time lane_snapshot = Inr 2
   \<and> (2::int) < width lane_snapshot \<and> (1::int) < num_lanes lane_snapshot
   \<and> Blocked (1, 0) 1 \<in> set lane_facts
   \<and> (1, 0) \<notin> set (free_cells lane_enc ! nat 1)
   \<and> UpNext (2, 1) (1, 1) 1 \<in> set lane_facts
   \<and> UpNext (2, 1) (1, 0) 1 \<notin> set lane_facts
   \<and> DownNext (2, 1) (1, 1) 1 \<in> set lane_facts"
proof -
  have c: "(0::int) \<le> 2" "(2::int) < width lane_snapshot" "(0::int) \<le> 1"
    "(1::int) < num_lanes lane_snapshot"
    by (simp_all add: lane_snapshot_def)
  have t: "(1::int) \<le> 1" "(1::int) < 2" by simp_all
  have n: "num_lanes lane_snapshot = 2" by (simp add: lane_snapshot_def)
  note th = lateral_successors [OF lane_generateInitString lane_occupancy lane_max_time c t]
  have bl: "Blocked (1, 0) 1 \<in> set lane_facts"
    by (simp add: lane_facts_def)
  have fr: "(1, 0) \<notin> set (free_cells lane_enc ! nat 1)"
    using th [of "(1, 1)"] bl by simp
  have "UpNext (2, 1) (1, 1) 1 \<in> set lane_facts"
    using th [of "(1, 1)"] fr by simp
  moreover have "UpNext (2, 1) (1, 0) 1 \<notin> set lane_facts"
    using th [of "(1, 0)"] fr by simp
  moreover have "DownNext (2, 1) (1, 1) 1 \<in> set lane_facts"
    using th [of "(1, 1)"] by (simp add: n)
  ultimately show ?thesis
    using lane_generateInitString lane_occupancy lane_max_time c fr bl by simp
qed

lemma origin_lane_generateInitString:
  "generateInitString origin_lane_snapshot = Inr origin_lane_facts"
  unfolding origin_lane_snapshot_def origin_lane_facts_def by code_simp

lemma origin_lane_max_time: "max_time origin_lane_snapshot = Inr 2"
  unfolding origin_lane_snapshot_def by code_simp

text \<open>A car that reaches the origin at the last instant: the origin is given a \<open>blocked\<close>
  fact there, and the lateral-up successor of the cell \<open>(1, 1)\<close>, whose candidate is the
  origin, is the origin all the same and not the same-lane cell \<open>(0, 1)\<close>.\<close>

theorem lateral_into_blocked_origin:
  "generateInitString origin_lane_snapshot = Inr origin_lane_facts
   \<and> max_time origin_lane_snapshot = Inr 2
   \<and> width origin_lane_snapshot = 2 \<and> num_lanes origin_lane_snapshot = 2
   \<and> Blocked (0, 0) 1 \<in> set origin_lane_facts
   \<and> UpNext (1, 1) (0, 0) 1 \<in> set origin_lane_facts
   \<and> UpNext (1, 1) (0, 1) 1 \<notin> set origin_lane_facts"
proof -
  have "Blocked (0, 0) 1 \<in> set origin_lane_facts"
    "UpNext (1, 1) (0, 0) 1 \<in> set origin_lane_facts"
    "UpNext (1, 1) (0, 1) 1 \<notin> set origin_lane_facts"
    by (simp_all add: origin_lane_facts_def)
  then show ?thesis
    using origin_lane_generateInitString origin_lane_max_time
    by (simp add: origin_lane_snapshot_def)
qed

section \<open>Text of cell names and plan lines\<close>

lemma digit_char:
  fixes n :: nat
  assumes "n < 10"
  shows "''0123456789'' ! n \<in> set ''0123456789''"
proof -
  have "length ''0123456789'' = 10" by simp
  then have "n < length ''0123456789''" using assms by (simp only:)
  then show ?thesis by (rule nth_mem)
qed

lemma digit_char_inj:
  fixes m n :: nat
  assumes "m < 10" "n < 10" "''0123456789'' ! m = ''0123456789'' ! n"
  shows "m = n"
proof -
  have d: "distinct ''0123456789''" by simp
  have "length ''0123456789'' = 10" by simp
  then have l: "m < length ''0123456789''" "n < length ''0123456789''"
    using assms(1,2) by (simp_all only:)
  show ?thesis using nth_eq_iff_index_eq [OF d l] assms(3) by blast
qed

lemma nat_digits_small: "n < 10 \<Longrightarrow> nat_digits n = [''0123456789'' ! n]"
  by (subst nat_digits.simps) (simp del: nth_Cons_numeral)

lemma nat_digits_large:
  "\<not> n < 10 \<Longrightarrow> nat_digits n = nat_digits (n div 10) @ [''0123456789'' ! (n mod 10)]"
  by (subst nat_digits.simps) (simp del: nth_Cons_numeral)

lemma nat_digits_nonempty: "nat_digits n \<noteq> []"
  by (cases "n < 10") (simp_all add: nat_digits_small nat_digits_large)

lemma nat_digits_chars: "set (nat_digits n) \<subseteq> set ''0123456789''"
proof (induction n rule: nat_digits.induct)
  case (1 n)
  show ?case
  proof (cases "n < 10")
    case True
    then show ?thesis using digit_char [of n] by (simp only: nat_digits_small) simp
  next
    case False
    have "n mod 10 < 10" by simp
    then have c: "''0123456789'' ! (n mod 10) \<in> set ''0123456789''" by (rule digit_char)
    have "set (nat_digits (n div 10)) \<subseteq> set ''0123456789''" using False by (rule 1)
    then show ?thesis using c by (simp only: nat_digits_large [OF False]) simp
  qed
qed

lemma nat_digits_inj: "nat_digits m = nat_digits n \<Longrightarrow> m = n"
proof (induction m arbitrary: n rule: nat_digits.induct)
  case (1 m)
  show ?case
  proof (cases "m < 10")
    case True
    have n: "n < 10"
    proof (rule ccontr)
      assume a: "\<not> n < 10"
      have "length (nat_digits n) = length (nat_digits (n div 10)) + 1"
        by (simp only: nat_digits_large [OF a]) simp
      moreover have "length (nat_digits m) = 1" by (simp only: nat_digits_small [OF True]) simp
      moreover have "0 < length (nat_digits (n div 10))" using nat_digits_nonempty by blast
      ultimately show False using "1.prems" by simp
    qed
    have "[''0123456789'' ! m] = [''0123456789'' ! n]"
      using "1.prems" by (simp only: nat_digits_small [OF True] nat_digits_small [OF n])
    then have "''0123456789'' ! m = ''0123456789'' ! n" by (rule list.inject [THEN iffD1, THEN conjunct1])
    with True n show ?thesis by (rule digit_char_inj)
  next
    case False
    have n: "\<not> n < 10"
    proof
      assume a: "n < 10"
      have "length (nat_digits m) = length (nat_digits (m div 10)) + 1"
        by (simp only: nat_digits_large [OF False]) simp
      moreover have "length (nat_digits n) = 1" by (simp only: nat_digits_small [OF a]) simp
      moreover have "0 < length (nat_digits (m div 10))" using nat_digits_nonempty by blast
      ultimately show False using "1.prems" by simp
    qed
    have eq: "nat_digits (m div 10) @ [''0123456789'' ! (m mod 10)]
              = nat_digits (n div 10) @ [''0123456789'' ! (n mod 10)]"
      using "1.prems" by (simp only: nat_digits_large [OF False] nat_digits_large [OF n])
    have a: "nat_digits (m div 10) = nat_digits (n div 10)"
      and b: "''0123456789'' ! (m mod 10) = ''0123456789'' ! (n mod 10)"
      using eq by (simp_all only: append1_eq_conv)
    have "m div 10 = n div 10" using False a by (rule 1)
    moreover have "m mod 10 = n mod 10"
      using _ _ b by (rule digit_char_inj) simp_all
    ultimately show ?thesis by (metis div_mult_mod_eq)
  qed
qed

lemma digit_plain:
  assumes "c \<in> set ''0123456789''"
  shows "\<not> is_space c \<and> c \<noteq> CHR ''p'' \<and> c \<noteq> CHR ''-''"
  using assms by (auto simp: is_space_def)

lemma nat_digits_plain:
  assumes "c \<in> set (nat_digits n)"
  shows "\<not> is_space c \<and> c \<noteq> CHR ''p'' \<and> c \<noteq> CHR ''-''"
proof -
  have "c \<in> set ''0123456789''" using assms nat_digits_chars by blast
  then show ?thesis by (rule digit_plain)
qed

lemma py_str_plain:
  assumes "c \<in> set (py_str i)"
  shows "\<not> is_space c \<and> c \<noteq> CHR ''p''"
proof (cases "i < 0")
  case True
  then have "c = CHR ''-'' \<or> c \<in> set (nat_digits (nat (- i)))"
    using assms by (simp add: py_str_def)
  then show ?thesis
  proof
    assume "c = CHR ''-''"
    then show ?thesis by (simp add: is_space_def)
  next
    assume "c \<in> set (nat_digits (nat (- i)))"
    then show ?thesis using nat_digits_plain by blast
  qed
next
  case False
  then have "c \<in> set (nat_digits (nat i))"
    using assms by (simp add: py_str_def)
  then show ?thesis using nat_digits_plain by blast
qed

lemma py_str_nonempty: "py_str i \<noteq> []"
  by (simp add: py_str_def nat_digits_nonempty)

lemma py_str_inj: "py_str i = py_str j \<Longrightarrow> i = j"
proof -
  assume eq: "py_str i = py_str j"
  have neg: "CHR ''-'' # nat_digits m \<noteq> nat_digits n" for m n
  proof
    assume "CHR ''-'' # nat_digits m = nat_digits n"
    then have "CHR ''-'' \<in> set (nat_digits n)" by (metis list.set_intros(1))
    then show False using nat_digits_plain by blast
  qed
  consider "i < 0" "j < 0" | "i < 0" "\<not> j < 0" | "\<not> i < 0" "j < 0" | "\<not> i < 0" "\<not> j < 0"
    by blast
  then show ?thesis
  proof cases
    case 1
    then have "nat_digits (nat (- i)) = nat_digits (nat (- j))" using eq by (simp add: py_str_def)
    then have "nat (- i) = nat (- j)" by (rule nat_digits_inj)
    then show ?thesis using 1 by simp
  next
    case 2
    then show ?thesis using eq neg by (simp add: py_str_def)
  next
    case 3
    then show ?thesis using eq neg [symmetric] by (simp add: py_str_def)
  next
    case 4
    then have "nat_digits (nat i) = nat_digits (nat j)" using eq by (simp add: py_str_def)
    then have "nat i = nat j" by (rule nat_digits_inj)
    then show ?thesis using 4 by simp
  qed
qed

section \<open>Splitting a plan line\<close>

lemma split_ws_plain:
  assumes "\<forall>c \<in> set w. \<not> is_space c"
  shows "split_ws cur (w @ rest) = split_ws (cur @ w) rest"
  using assms by (induction w arbitrary: cur) simp_all


lemma space_chars: "is_space CHR '' ''" "is_space (CHR 0x0A)" "\<not> is_space CHR '')''"
  "\<not> is_space CHR ''(''"
  by (simp_all add: is_space_def)


lemma split_ws_args:
  assumes "\<forall>a \<in> set args. a \<noteq> [] \<and> (\<forall>c \<in> set a. \<not> is_space c)" "cur \<noteq> []"
  shows "split_ws cur (concat (map (\<lambda>a. CHR '' '' # a) args) @ '')'' @ [CHR 0x0A])
         = (if args = [] then [cur @ '')''] else cur # butlast args @ [last args @ '')''])"
  using assms
proof (induction args arbitrary: cur)
  case Nil
  then show ?case by (simp add: space_chars)
next
  case (Cons a args)
  have a: "a \<noteq> []" "\<forall>c \<in> set a. \<not> is_space c" using Cons.prems(1) by simp_all
  have rest: "\<forall>a \<in> set args. a \<noteq> [] \<and> (\<forall>c \<in> set a. \<not> is_space c)"
    using Cons.prems(1) by simp
  define tail where "tail = concat (map (\<lambda>a. CHR '' '' # a) args) @ '')'' @ [CHR 0x0A]"
  have "split_ws cur (concat (map (\<lambda>a. CHR '' '' # a) (a # args)) @ '')'' @ [CHR 0x0A])
        = split_ws cur (CHR '' '' # a @ tail)"
    by (simp add: tail_def)
  also have "\<dots> = cur # split_ws [] (a @ tail)"
    using Cons.prems(2) by (simp add: space_chars)
  also have "split_ws [] (a @ tail) = split_ws a tail"
    using split_ws_plain [OF a(2), of "[]" tail] by simp
  also have "split_ws a tail = (if args = [] then [a @ '')''] else a # butlast args @ [last args @ '')''])"
    unfolding tail_def using rest a(1) by (rule Cons.IH)
  finally show ?case by simp
qed

lemma py_split_action_text:
  assumes "\<forall>a \<in> set args. a \<noteq> [] \<and> (\<forall>c \<in> set a. \<not> is_space c)"
    "\<forall>c \<in> set name. \<not> is_space c" "args \<noteq> []"
  shows "py_split (action_text name args) = (CHR ''('' # name) # butlast args @ [last args @ '')'']"
proof -
  define tail where "tail = concat (map (\<lambda>a. CHR '' '' # a) args) @ '')'' @ [CHR 0x0A]"
  have "py_split (action_text name args) = split_ws [] (CHR ''('' # name @ tail)"
    by (simp add: py_split_def action_text_def tail_def)
  also have "\<dots> = split_ws [CHR ''(''] (name @ tail)"
    by (simp add: space_chars)
  also have "\<dots> = split_ws (CHR ''('' # name) tail"
    using split_ws_plain [OF assms(2), of "[CHR ''('']" tail] by simp
  also have "\<dots> = (CHR ''('' # name) # butlast args @ [last args @ '')'']"
    unfolding tail_def using split_ws_args [OF assms(1), of "CHR ''('' # name"] assms(3) by simp
  finally show ?thesis .
qed

lemma split_sep_pt_skip:
  "c \<noteq> CHR ''p'' \<Longrightarrow> rest \<noteq> [] \<Longrightarrow> split_sep_pt cur (c # rest) = split_sep_pt (cur @ [c]) rest"
  by (cases rest) simp_all

lemma split_sep_pt_until:
  assumes "CHR ''p'' \<notin> set w"
  shows "split_sep_pt cur (w @ CHR ''p'' # CHR ''t'' # rest) = (cur @ w) # split_sep_pt [] rest"
  using assms
proof (induction w arbitrary: cur)
  case Nil
  show ?case by simp
next
  case (Cons c w)
  have cp: "c \<noteq> CHR ''p''" using Cons.prems by auto
  have "split_sep_pt cur (c # (w @ CHR ''p'' # CHR ''t'' # rest))
        = split_sep_pt (cur @ [c]) (w @ CHR ''p'' # CHR ''t'' # rest)"
    using cp by (rule split_sep_pt_skip) simp
  then have "split_sep_pt cur ((c # w) @ CHR ''p'' # CHR ''t'' # rest)
        = split_sep_pt (cur @ [c]) (w @ CHR ''p'' # CHR ''t'' # rest)"
    by simp
  also have "\<dots> = ((cur @ [c]) @ w) # split_sep_pt [] rest"
    using Cons.prems by (intro Cons.IH) simp
  finally show ?case by simp
qed

lemma split_sep_pt_last:
  assumes "CHR ''p'' \<notin> set w"
  shows "split_sep_pt cur w = [cur @ w]"
  using assms
proof (induction w arbitrary: cur)
  case Nil
  show ?case by simp
next
  case (Cons c w)
  show ?case
  proof (cases "w = []")
    case True
    then show ?thesis by simp
  next
    case False
    have cp: "c \<noteq> CHR ''p''" using Cons.prems by auto
    have "split_sep_pt cur (c # w) = split_sep_pt (cur @ [c]) w"
      using cp False by (rule split_sep_pt_skip)
    also have "\<dots> = [(cur @ [c]) @ w]"
      using Cons.prems by (intro Cons.IH) simp
    finally show ?thesis by simp
  qed
qed

lemma py_str_no_p: "CHR ''p'' \<notin> set (py_str i)"
  using py_str_plain by blast

lemma py_split_pt_cell_name:
  "py_split_pt (cell_name (x, y)) = [[], py_str x, py_str y]"
proof -
  have "py_split_pt (cell_name (x, y))
        = split_sep_pt [] ([] @ CHR ''p'' # CHR ''t'' # (py_str x @ CHR ''p'' # CHR ''t'' # py_str y))"
    by (simp add: py_split_pt_def cell_name_def)
  also have "\<dots> = ([] @ []) # split_sep_pt [] (py_str x @ CHR ''p'' # CHR ''t'' # py_str y)"
    by (rule split_sep_pt_until) simp
  also have "split_sep_pt [] (py_str x @ CHR ''p'' # CHR ''t'' # py_str y)
             = ([] @ py_str x) # split_sep_pt [] (py_str y)"
    using py_str_no_p by (rule split_sep_pt_until)
  also have "split_sep_pt [] (py_str y) = [[] @ py_str y]"
    using py_str_no_p by (rule split_sep_pt_last)
  finally show ?thesis by simp
qed

lemma cell_name_plain: "\<forall>c \<in> set (cell_name d). \<not> is_space c"
proof
  fix c assume "c \<in> set (cell_name d)"
  then have "c = CHR ''p'' \<or> c = CHR ''t'' \<or> c \<in> set (py_str (fst d)) \<or> c \<in> set (py_str (snd d))"
    by (auto simp: cell_name_def)
  moreover have "\<not> is_space CHR ''p''" "\<not> is_space CHR ''t''" by (simp_all add: is_space_def)
  ultimately show "\<not> is_space c" using py_str_plain by blast
qed

lemma cell_name_nonempty: "cell_name d \<noteq> []"
  by (simp add: cell_name_def)

lemma py_index_2: "py_index [a, b, c] 2 = Inr c"
  by (simp add: py_index_def)

lemma coords_of_cells:
  "coords_of [cell_name (x1, y1), cell_name (x2, y2)] = Inr [py_str y1, py_str y2]"
  by (simp add: py_split_pt_cell_name py_index_2)

section \<open>Translating one plan line\<close>

lemma append_action_last:
  "actions \<noteq> [] \<Longrightarrow> append_action actions (- 1) action_sequence = Inr (action_sequence @ [last actions])"
proof -
  assume a: "actions \<noteq> []"
  then have l: "Suc 0 \<le> length actions" by (cases actions) simp_all
  then have "nat (int (length actions) + - 1) = length actions - 1" by linarith
  then show ?thesis
    using a l by (simp add: append_action_def py_index_def last_conv_nth)
qed

lemma append_action_0:
  "actions \<noteq> [] \<Longrightarrow> append_action actions 0 action_sequence = Inr (action_sequence @ [actions ! 0])"
  by (simp add: append_action_def py_index_def)

lemma append_action_1:
  "2 \<le> length actions \<Longrightarrow> append_action actions 1 action_sequence = Inr (action_sequence @ [actions ! 1])"
  by (simp add: append_action_def py_index_def)

lemma plan_line_open:
  assumes "line = CHR ''('' # rest" "py_split line = tok # toks" "coords_of (take 2 toks) = Inr coords"
  shows "plan_line actions line action_sequence =
            (case (if drop 1 tok = ''up'' then
                     (if length (remdups coords) = 1
                      then append_action actions (- 1) action_sequence
                      else append_action actions 0 action_sequence)
                   else Inr action_sequence) of
               Inl er \<Rightarrow> Inl er
             | Inr seq1 \<Rightarrow>
                 (case (if drop 1 tok = ''down'' then
                          (if length (remdups coords) = 1
                           then append_action actions (- 1) seq1
                           else append_action actions 1 seq1)
                        else Inr seq1) of
                    Inl er \<Rightarrow> Inl er
                  | Inr seq2 \<Rightarrow>
                      (if drop 1 tok = ''forward'' then
                         (case forward_speed line of
                            Inl er \<Rightarrow> Inl er
                          | Inr speed \<Rightarrow> append_action actions speed seq2)
                       else Inr seq2)))"
  unfolding plan_line_def using assms
  by (simp add: Let_def del: One_nat_def split del: if_split)


lemma lateral_tokens:
  "py_split (action_text name' [cell_name c1, cell_name c2, py_str t1, py_str t2])
   = [CHR ''('' # name', cell_name c1, cell_name c2, py_str t1, py_str t2 @ '')'']"
  if "\<forall>c \<in> set name'. \<not> is_space c"
proof -
  have plain: "\<forall>a \<in> set [cell_name c1, cell_name c2, py_str t1, py_str t2].
                 a \<noteq> [] \<and> (\<forall>c \<in> set a. \<not> is_space c)"
    using cell_name_plain cell_name_nonempty py_str_plain py_str_nonempty by simp
  have "py_split (action_text name' [cell_name c1, cell_name c2, py_str t1, py_str t2])
        = (CHR ''('' # name') # butlast [cell_name c1, cell_name c2, py_str t1, py_str t2]
          @ [last [cell_name c1, cell_name c2, py_str t1, py_str t2] @ '')'']"
    using plain that by (rule py_split_action_text) simp
  then show ?thesis by simp
qed

lemma remdups_pair: "length (remdups [a, b]) = 1 \<longleftrightarrow> a = b"
  by simp

lemma lateral_coords_same:
  "length (remdups [py_str (snd c1), py_str (snd c2)]) = 1 \<longleftrightarrow> snd c1 = snd c2"
  using py_str_inj [of "snd c1" "snd c2"] by (auto simp: remdups_pair)

section \<open>Lateral plan lines\<close>

text \<open>
  Claim C5, as the code has it.  A lateral line of the plan is the text
  \<open>(up c1 c2 t1 t2)\<close> or \<open>(down c1 c2 t1 t2)\<close> with two cell names and two instants.  When the
  two cells have the same lane (the coordinate after the second \<open>pt\<close>, which is what
  \<open>split('pt')[2]\<close> reads) the translator appends \<open>env.actions[-1]\<close>, the forward action
  of minimum speed, and otherwise \<open>env.actions[0]\<close> for \<open>up\<close> and \<open>env.actions[1]\<close> for
  \<open>down\<close>.  The columns of the two cells play no part.
\<close>

theorem lateral_translation:
  assumes "2 \<le> length actions"
  shows "plan_line actions (action_text ''up'' [cell_name c1, cell_name c2, py_str t1, py_str t2])
           action_sequence
         = Inr (action_sequence @ [if snd c1 = snd c2 then last actions else actions ! 0])
       \<and> plan_line actions (action_text ''down'' [cell_name c1, cell_name c2, py_str t1, py_str t2])
           action_sequence
         = Inr (action_sequence @ [if snd c1 = snd c2 then last actions else actions ! 1])"
proof -
  have ne: "actions \<noteq> []" using assms by auto
  have coords: "coords_of (take 2 [cell_name c1, cell_name c2, py_str t1, py_str t2 @ '')''])
                = Inr [py_str (snd c1), py_str (snd c2)]"
    using coords_of_cells [of "fst c1" "snd c1" "fst c2" "snd c2"] by simp
  have up_plain: "\<forall>c \<in> set ''up''. \<not> is_space c" by (simp add: is_space_def)
  have down_plain: "\<forall>c \<in> set ''down''. \<not> is_space c" by (simp add: is_space_def)
  have up_line: "action_text ''up'' [cell_name c1, cell_name c2, py_str t1, py_str t2]
                 = CHR ''('' # tl (action_text ''up'' [cell_name c1, cell_name c2, py_str t1, py_str t2])"
    by (simp add: action_text_def)
  have down_line: "action_text ''down'' [cell_name c1, cell_name c2, py_str t1, py_str t2]
                 = CHR ''('' # tl (action_text ''down'' [cell_name c1, cell_name c2, py_str t1, py_str t2])"
    by (simp add: action_text_def)
  have up: "plan_line actions (action_text ''up'' [cell_name c1, cell_name c2, py_str t1, py_str t2])
              action_sequence
            = Inr (action_sequence @ [if snd c1 = snd c2 then last actions else actions ! 0])"
    unfolding plan_line_open [OF up_line lateral_tokens [OF up_plain] coords]
    using lateral_coords_same [of c1 c2]
    by (simp add: append_action_last [OF ne] append_action_0 [OF ne])
  have down: "plan_line actions (action_text ''down'' [cell_name c1, cell_name c2, py_str t1, py_str t2])
              action_sequence
            = Inr (action_sequence @ [if snd c1 = snd c2 then last actions else actions ! 1])"
    unfolding plan_line_open [OF down_line lateral_tokens [OF down_plain] coords]
    using lateral_coords_same [of c1 c2]
    by (simp add: append_action_last [OF ne] append_action_1 [OF assms])
  show ?thesis using up down by (rule conjI)
qed

theorem lateral_translation_witness:
  "2 \<le> length env_actions
   \<and> plan_line env_actions (action_text ''up'' [cell_name (3, 1), cell_name (2, 0), py_str 1, py_str 2]) []
       = Inr [''up'']
   \<and> plan_line env_actions (action_text ''down'' [cell_name (3, 0), cell_name (2, 0), py_str 1, py_str 2]) []
       = Inr [''forward[-1]'']"
proof -
  have l: "2 \<le> length env_actions" by (simp add: env_actions_def)
  have a: "last env_actions = ''forward[-1]''" "env_actions ! 0 = ''up''"
    by (simp_all add: env_actions_def)
  show ?thesis
    using lateral_translation [OF l, of "(3, 1)" "(2, 0)" 1 2 "[]"]
      lateral_translation [OF l, of "(3, 0)" "(2, 0)" 1 2 "[]"] l
    by (simp add: a)
qed

text \<open>The line \<open>(up pt3pt0 pt2pt0 1 2)\<close> names cells of different columns and the same lane:
  the translator emits the forward action of minimum speed.  The line
  \<open>(up pt0pt1 pt0pt0 1 2)\<close> names cells of the same column and different lanes: it emits
  the lateral-up action.\<close>

theorem lateral_compares_lanes:
  "action_text ''up'' [cell_name (3, 0), cell_name (2, 0), py_str 1, py_str 2]
     = ''(up pt3pt0 pt2pt0 1 2)'' @ [CHR 0x0A]
   \<and> generatePlan env_actions [''(up pt3pt0 pt2pt0 1 2)'' @ [CHR 0x0A]] = Inr [''forward[-1]'']
   \<and> action_text ''up'' [cell_name (0, 1), cell_name (0, 0), py_str 1, py_str 2]
     = ''(up pt0pt1 pt0pt0 1 2)'' @ [CHR 0x0A]
   \<and> generatePlan env_actions [''(up pt0pt1 pt0pt0 1 2)'' @ [CHR 0x0A]] = Inr [''up'']"
proof -
  have "action_text ''up'' [cell_name (3, 0), cell_name (2, 0), py_str 1, py_str 2]
     = ''(up pt3pt0 pt2pt0 1 2)'' @ [CHR 0x0A]"
    by code_simp
  moreover have "generatePlan env_actions [''(up pt3pt0 pt2pt0 1 2)'' @ [CHR 0x0A]] = Inr [''forward[-1]'']"
    unfolding env_actions_def by code_simp
  moreover have "action_text ''up'' [cell_name (0, 1), cell_name (0, 0), py_str 1, py_str 2]
     = ''(up pt0pt1 pt0pt0 1 2)'' @ [CHR 0x0A]"
    by code_simp
  moreover have "generatePlan env_actions [''(up pt0pt1 pt0pt0 1 2)'' @ [CHR 0x0A]] = Inr [''up'']"
    unfolding env_actions_def by code_simp
  ultimately show ?thesis by simp
qed

section \<open>Lines that are no known action\<close>






end
